theory Spec2Isabelle
  imports Complex_Main "HOL-Library.Word"
begin

unbundle bit_operations_syntax

section \<open>Machine types\<close>

text \<open>
  The two programs, \<^verbatim>\<open>bmp_to_hex.c\<close> and \<^verbatim>\<open>convert.c\<close>, compute on
  \<^verbatim>\<open>uint8_t\<close>, \<^verbatim>\<open>uint16_t\<close> and \<^verbatim>\<open>int\<close>. An \<^verbatim>\<open>int\<close> is taken
  to be 32 bits wide. Every \<^verbatim>\<open>int\<close> expression of the colour code is non-negative
  and far below \<open>2 ^ 31\<close>, so on it the unsigned reading of a 32-bit word, its
  logical right shift and its unsigned division agree with C's signed ones.
\<close>

type_synonym u8 = "8 word"
type_synonym u16 = "16 word"
type_synonym c_int = "32 word"

section \<open>ColorCodec: 8-bit channels to RGB565 (\<^verbatim>\<open>bmp_to_hex.c\<close>)\<close>

text \<open>
  \<^verbatim>\<open>static inline uint16_t to_rgb565(uint8_t r, uint8_t g, uint8_t b)\<close>.
  The three channels are promoted to \<^verbatim>\<open>int\<close>, shifted and masked, stored in
  \<^verbatim>\<open>uint16_t\<close> locals, promoted again for the shifts and the ORs, and the result
  is cast to \<^verbatim>\<open>uint16_t\<close>.
\<close>

definition to_rgb565 :: "u8 \<Rightarrow> u8 \<Rightarrow> u8 \<Rightarrow> u16" where
  "to_rgb565 rv gv bv =
     (let r5 = (ucast (drop_bit 3 (ucast rv :: c_int) AND 0x1F) :: u16);
          g6 = (ucast (drop_bit 2 (ucast gv :: c_int) AND 0x3F) :: u16);
          b5 = (ucast (drop_bit 3 (ucast bv :: c_int) AND 0x1F) :: u16)
      in ucast (push_bit 11 (ucast r5 :: c_int) OR push_bit 5 (ucast g6 :: c_int)
                OR (ucast b5 :: c_int)))"

section \<open>ColorCodec: RGB565 to 8-bit channels (convert.c)\<close>

text \<open>
  The block \<^verbatim>\<open>// RGB565 -> RGB888\<close> stands twice in \<^verbatim>\<open>main\<close>, with the same
  text, once in the reading loop and once in the filling loop. The field extraction
  \<^verbatim>\<open>uint8_t r5 = (pixel >> 11) & 0x1F\<close> and so on:
\<close>

definition r5_of :: "u16 \<Rightarrow> u8" where
  "r5_of pixel = ucast (drop_bit 11 (ucast pixel :: c_int) AND 0x1F)"

definition g6_of :: "u16 \<Rightarrow> u8" where
  "g6_of pixel = ucast (drop_bit 5 (ucast pixel :: c_int) AND 0x3F)"

definition b5_of :: "u16 \<Rightarrow> u8" where
  "b5_of pixel = ucast ((ucast pixel :: c_int) AND 0x1F)"

text \<open>
  The \<^verbatim>\<open>int\<close> expressions \<^verbatim>\<open>(r5 * 255) / 31\<close> and \<^verbatim>\<open>(g6 * 255) / 63\<close>, before
  their cast to \<^verbatim>\<open>uint8_t\<close>.
\<close>

definition scale5 :: "u8 \<Rightarrow> c_int" where
  "scale5 v5 = (ucast v5 * 255) div 31"

definition scale6 :: "u8 \<Rightarrow> c_int" where
  "scale6 v6 = (ucast v6 * 255) div 63"

definition rgb565_to_rgb888 :: "u16 \<Rightarrow> u8 \<times> u8 \<times> u8" where
  "rgb565_to_rgb888 pixel =
     (let r5 = r5_of pixel; g6 = g6_of pixel; b5 = b5_of pixel;
          r8 = (ucast (scale5 r5) :: u8);
          g8 = (ucast (scale6 g6) :: u8);
          b8 = (ucast (scale5 b5) :: u8)
      in (r8, g8, b8))"

section \<open>ResilientHexDecoder: the line parser (convert.c)\<close>

text \<open>
  A \<^verbatim>\<open>char\<close> buffer is a list of characters. A C string in it ends at the first
  NUL character, or at the end of the list when it holds none (the terminating NUL
  is then the next byte of the buffer and is not part of the list).
\<close>

definition NUL :: char where
  "NUL = CHR 0x00"

definition CR :: char where
  "CR = CHR 0x0D"

definition LF :: char where
  "LF = CHR 0x0A"

text \<open>The C string held by a buffer.\<close>

definition c_string :: "string \<Rightarrow> string" where
  "c_string buf = takeWhile (\<lambda>c. c \<noteq> NUL) buf"

text \<open>
  \<^verbatim>\<open><ctype.h>\<close> in the "C" locale, which is the locale of a program that never
  calls \<^verbatim>\<open>setlocale\<close>: \<^verbatim>\<open>isspace\<close> holds of space, \<^verbatim>\<open>\t \n \v \f \r\<close>, and
  \<^verbatim>\<open>isxdigit\<close> of the decimal digits and the letters a to f in both cases.
\<close>

definition isspace :: "char \<Rightarrow> bool" where
  "isspace c \<longleftrightarrow> c \<in> set [CHR '' '', CHR 0x09, CHR 0x0A, CHR 0x0B, CHR 0x0C, CHR 0x0D]"

definition isxdigit :: "char \<Rightarrow> bool" where
  "isxdigit c \<longleftrightarrow> c \<in> set ''0123456789abcdefABCDEF''"

text \<open>The value of a hexadecimal digit; 0 for any other character.\<close>

definition xdigit_val :: "char \<Rightarrow> nat" where
  "xdigit_val c =
     (let n = (of_char c :: nat) in
      if 48 \<le> n \<and> n \<le> 57 then n - 48
      else if 97 \<le> n \<and> n \<le> 102 then n - 87
      else if 65 \<le> n \<and> n \<le> 70 then n - 55
      else 0)"

text \<open>
  \<^verbatim>\<open>strtoul(buf, NULL, 16)\<close> of the C library, after the C standard (7.22.1.4):
  leading white space is skipped, then an optional sign, then an optional \<^verbatim>\<open>0x\<close> or
  \<^verbatim>\<open>0X\<close> that a hexadecimal digit follows, then the longest run of hexadecimal digits
  is read in base 16. A value above \<^verbatim>\<open>ULONG_MAX\<close> gives \<^verbatim>\<open>ULONG_MAX\<close>; a minus
  sign negates the value in \<^verbatim>\<open>unsigned long\<close>, taken to be 64 bits wide.
\<close>

definition ULONG_MAX :: nat where
  "ULONG_MAX = 2 ^ 64 - 1"

fun hex_accum :: "nat \<Rightarrow> string \<Rightarrow> nat" where
  "hex_accum acc [] = acc"
| "hex_accum acc (c # cs) = (if isxdigit c then hex_accum (acc * 16 + xdigit_val c) cs else acc)"

definition strtoul16 :: "string \<Rightarrow> 64 word" where
  "strtoul16 s =
     (let s1 = dropWhile isspace (takeWhile (\<lambda>c. c \<noteq> NUL) s);
          neg = (case s1 of [] \<Rightarrow> False | c # _ \<Rightarrow> c = CHR ''-'');
          s2 = (case s1 of [] \<Rightarrow> s1 | c # cs \<Rightarrow> if c = CHR ''+'' \<or> c = CHR ''-'' then cs else s1);
          s3 = (case s2 of
                  z # x # d # cs \<Rightarrow>
                    if z = CHR ''0'' \<and> (x = CHR ''x'' \<or> x = CHR ''X'') \<and> isxdigit d
                    then d # cs else s2
                | _ \<Rightarrow> s2);
          v = hex_accum 0 s3
      in if ULONG_MAX < v then word_of_nat ULONG_MAX
         else if neg then - word_of_nat v else word_of_nat v)"

text \<open>
  \<^verbatim>\<open>while (*line && isspace((unsigned char)*line)) line++;\<close> The result is the
  buffer from the new position of \<^verbatim>\<open>line\<close> on.
\<close>

fun skip_space :: "string \<Rightarrow> string" where
  "skip_space [] = []"
| "skip_space (c # cs) = (if c \<noteq> NUL \<and> isspace c then skip_space cs else c # cs)"

text \<open>
  \<^verbatim>\<open>while (line[n] && line[n] != '\r' && line[n] != '\n' && n < sizeof(buf)-1)\<close>
  with \<^verbatim>\<open>char buf[64]\<close>: the characters copied to \<^verbatim>\<open>buf\<close>, from index \<open>n\<close> on;
  the argument is the buffer from \<^verbatim>\<open>line[n]\<close> on.
\<close>

fun copy_buf :: "nat \<Rightarrow> string \<Rightarrow> string" where
  "copy_buf n [] = []"
| "copy_buf n (c # cs) =
     (if c \<noteq> NUL \<and> c \<noteq> CR \<and> c \<noteq> LF \<and> n < 64 - 1 then c # copy_buf (Suc n) cs else [])"

text \<open>The two \<^verbatim>\<open>for\<close> loops over \<^verbatim>\<open>buf\<close>, each with its early \<^verbatim>\<open>return 0\<close>.\<close>

fun has_unknown :: "string \<Rightarrow> bool" where
  "has_unknown [] = False"
| "has_unknown (c # cs) = (if c = CHR ''x'' \<or> c = CHR ''X'' then True else has_unknown cs)"

fun has_non_hex :: "string \<Rightarrow> bool" where
  "has_non_hex [] = False"
| "has_non_hex (c # cs) = (if \<not> isxdigit c then True else has_non_hex cs)"

text \<open>
  \<^verbatim>\<open>static int parse_rgb565_line(const char *line, uint16_t *out)\<close>. The result
  \<open>Some v\<close> is the return value 1 with \<open>v\<close> stored in \<^verbatim>\<open>*out\<close>; \<open>None\<close> is the
  return value 0, which leaves \<^verbatim>\<open>*out\<close> as it was. In the test for a comment,
  \<^verbatim>\<open>line[1]\<close> is read only when \<^verbatim>\<open>line[0]\<close> is a slash; at the end of the list it
  is the terminating NUL.
\<close>

definition parse_rgb565_line :: "string \<Rightarrow> u16 option" where
  "parse_rgb565_line line0 =
     (let line = skip_space line0 in
      if (case line of c0 # c1 # _ \<Rightarrow> c0 = CHR ''/'' \<and> c1 = CHR ''/'' | _ \<Rightarrow> False) then None
      else
        let buf = copy_buf 0 line; n = length buf in
        if n = 0 then None
        else if has_unknown buf then None
        else if has_non_hex buf then None
        else if n > 4 then None
        else Some (ucast (strtoul16 buf AND 0xFFFF)))"

text \<open>
  For the statement of the parser's contract: a string of hexadecimal digits read as a
  base-16 unsigned integer, the first digit the most significant.
\<close>

definition hex_value :: "string \<Rightarrow> nat" where
  "hex_value s = foldl (\<lambda>a c. 16 * a + xdigit_val c) 0 s"

section \<open>ResilientHexDecoder: the two loops of main (convert.c)\<close>






text \<open>
  The state of \<^verbatim>\<open>main\<close>: the unread rest of \<^verbatim>\<open>blurred.hex\<close>, the bytes written
  to \<^verbatim>\<open>output.ppm\<close>, and the locals \<^verbatim>\<open>written\<close>, \<^verbatim>\<open>pixel\<close>, \<^verbatim>\<open>last_valid\<close>.
\<close>

record conv_state =
  hex_file :: string
  ppm_file :: "u8 list"
  written :: nat
  pixel :: u16
  last_valid :: u16




















section \<open>BitmapDecoder: the pixel rows of main (\<^verbatim>\<open>bmp_to_hex.c\<close>)\<close>

type_synonym u32 = "32 word"

text \<open>
  The two headers, as \<^verbatim>\<open>fread\<close> leaves them in \<^verbatim>\<open>fh\<close> and \<^verbatim>\<open>ih\<close>. The
  fields of type \<^verbatim>\<open>int32_t\<close> are 32-bit words read with \<open>sint\<close>.
\<close>

record BMPFileHeader =
  bfType :: u16
  bfSize :: u32
  bfReserved1 :: u16
  bfReserved2 :: u16
  bfOffBits :: u32

record BMPInfoHeader =
  biSize :: u32
  biWidth :: "32 word"
  biHeight :: "32 word"
  biPlanes :: u16
  biBitCount :: u16
  biCompression :: u32
  biSizeImage :: u32
  biXPelsPerMeter :: "32 word"
  biYPelsPerMeter :: "32 word"
  biClrUsed :: u32
  biClrImportant :: u32

record Pixel =
  r :: u8
  g :: u8
  b :: u8

text \<open>
  The ways in which \<^verbatim>\<open>main\<close> ends before it writes its output, one for each
  \<^verbatim>\<open>return 1\<close> of the part modelled here, and \<open>UndefinedBehaviour\<close> where C
  gives the program no meaning: an \<^verbatim>\<open>int\<close> result outside the range of
  \<^verbatim>\<open>int\<close>, a floating value converted to an integer type that cannot hold its
  integral part, a read or a write outside an array.
\<close>

datatype error =
  NotValidBMP
  | Only24Bit
  | CompressedBMP
  | MemoryAllocationFailed
  | ResizeFailed
  | UndefinedBehaviour

definition INT_MAX :: int where
  "INT_MAX = 2147483647"

definition INT_MIN :: int where
  "INT_MIN = - 2147483648"

definition in_int :: "int \<Rightarrow> bool" where
  "in_int x \<longleftrightarrow> INT_MIN \<le> x \<and> x \<le> INT_MAX"

text \<open>
  What the program does not decide is a parameter: whether \<^verbatim>\<open>malloc\<close> of a
  number of bytes succeeds, and the indeterminate bytes that fresh memory holds.
\<close>

record env =
  malloc_ok :: "nat \<Rightarrow> bool"
  fresh_byte :: "nat \<Rightarrow> u8"

definition fresh_bytes :: "env \<Rightarrow> nat \<Rightarrow> u8 list" where
  "fresh_bytes e n = map (fresh_byte e) [0..<n]"

definition fresh_pixels :: "env \<Rightarrow> nat \<Rightarrow> Pixel list" where
  "fresh_pixels e n =
     map (\<lambda>i. \<lparr>r = fresh_byte e (3 * i), g = fresh_byte e (3 * i + 1), b = fresh_byte e (3 * i + 2)\<rparr>)
       [0..<n]"

text \<open>
  \<^verbatim>\<open>fread(row_buf, 1, row_stride, fp)\<close> on the unread rest of the file: the bytes
  that are there, at most \<open>n\<close>, replace the first bytes of the buffer; the others stay.
  The result is the buffer and the rest of the file.
\<close>

definition fread :: "nat \<Rightarrow> u8 list \<Rightarrow> u8 list \<Rightarrow> u8 list \<times> u8 list" where
  "fread n buf fp = (let k = min n (length fp) in (take k fp @ drop k buf, drop k fp))"

text \<open>
  The body of the inner loop, for one column: the three assignments to the fields of
  \<^verbatim>\<open>src_pixels[dst_row * src_w + col]\<close>.
\<close>

definition store_pixel :: "u8 list \<Rightarrow> nat \<Rightarrow> nat \<Rightarrow> nat \<Rightarrow> Pixel list \<Rightarrow> Pixel list" where
  "store_pixel row_buf src_w dst_row col src_pixels =
     (let i = dst_row * src_w + col
      in src_pixels[i := (src_pixels ! i)\<lparr>r := row_buf ! (col * 3 + 2),
                                         g := row_buf ! (col * 3 + 1),
                                         b := row_buf ! (col * 3 + 0)\<rparr>])"

text \<open>
  The body of the outer loop, for one row, on the row buffer, the rest of the file and
  the pixel array; the inner loop is \<^verbatim>\<open>for (int col = 0; col < src_w; col++)\<close>.
\<close>

definition read_row ::
  "nat \<Rightarrow> nat \<Rightarrow> bool \<Rightarrow> nat \<Rightarrow> nat \<Rightarrow> u8 list \<times> u8 list \<times> Pixel list
    \<Rightarrow> u8 list \<times> u8 list \<times> Pixel list" where
  "read_row src_w src_h top_down row_stride row st =
     (case st of (row_buf, fp, src_pixels) \<Rightarrow>
        (case fread row_stride row_buf fp of (row_buf', fp') \<Rightarrow>
           let dst_row = (if top_down then row else src_h - 1 - row)
           in (row_buf', fp',
               fold (store_pixel row_buf' src_w dst_row) [0..<src_w] src_pixels)))"

text \<open>\<^verbatim>\<open>for (int row = 0; row < src_h; row++)\<close>.\<close>

definition read_rows ::
  "nat \<Rightarrow> nat \<Rightarrow> bool \<Rightarrow> nat \<Rightarrow> u8 list \<times> u8 list \<times> Pixel list
    \<Rightarrow> u8 list \<times> u8 list \<times> Pixel list" where
  "read_rows src_w src_h top_down row_stride st =
     fold (read_row src_w src_h top_down row_stride) [0..<src_h] st"

text \<open>
  \<^verbatim>\<open>main\<close> from the check of the headers to the end of the row loop. The
  arguments are the two headers and the bytes of the file; \<^verbatim>\<open>fseek\<close> to
  \<^verbatim>\<open>bfOffBits\<close> leaves the bytes from that offset on to be read. The result is
  \<^verbatim>\<open>src_w\<close>, \<^verbatim>\<open>src_h\<close> and \<^verbatim>\<open>src_pixels\<close>. \<^verbatim>\<open>abs\<close> of \<^verbatim>\<open>INT_MIN\<close>
  and the products \<^verbatim>\<open>src_w * 3\<close> and \<^verbatim>\<open>src_w * src_h\<close> are undefined when they
  leave the range of \<^verbatim>\<open>int\<close>; within it the indices of both loops are in range too.
\<close>

definition row_stride_of :: "int \<Rightarrow> int" where
  "row_stride_of src_w = (src_w * 3 + 3) AND NOT 3"

definition main_read_pixels ::
  "env \<Rightarrow> BMPFileHeader \<Rightarrow> BMPInfoHeader \<Rightarrow> u8 list \<Rightarrow> error + (int \<times> int \<times> Pixel list)" where
  "main_read_pixels e fh ih file =
     (if bfType fh \<noteq> 0x4D42 then Inl NotValidBMP
      else if biBitCount ih \<noteq> 24 then Inl Only24Bit
      else if biCompression ih \<noteq> 0 then Inl CompressedBMP
      else if sint (biWidth ih) = INT_MIN \<or> sint (biHeight ih) = INT_MIN then Inl UndefinedBehaviour
      else
        let src_w = \<bar>sint (biWidth ih)\<bar>;
            src_h = \<bar>sint (biHeight ih)\<bar>;
            top_down = (sint (biHeight ih) < 0)
        in
          if \<not> in_int (src_w * 3 + 3) \<or> \<not> in_int (src_w * src_h) then Inl UndefinedBehaviour
          else
            let row_stride = row_stride_of src_w in
            if \<not> malloc_ok e (nat row_stride) \<or> \<not> malloc_ok e (nat (src_w * src_h) * 3)
            then Inl MemoryAllocationFailed
            else
              let row_buf = fresh_bytes e (nat row_stride);
                  src_pixels = fresh_pixels e (nat (src_w * src_h));
                  fp = drop (unat (bfOffBits fh)) file
              in (case read_rows (nat src_w) (nat src_h) top_down (nat row_stride)
                         (row_buf, fp, src_pixels) of
                    (_, _, src_pixels') \<Rightarrow> Inr (src_w, src_h, src_pixels')))"

text \<open>
  For the statement of the decoder's contract. The state of the row buffer and of the
  file after the first \<open>n\<close> calls of \<^verbatim>\<open>fread\<close>, and the row that call number \<open>k\<close>
  (from 0) reads; the pixels that a row buffer holds, its bytes taken three at a time in
  the order blue, green, red; a row of the pixel array.
\<close>

fun fread_n :: "nat \<Rightarrow> nat \<Rightarrow> u8 list \<times> u8 list \<Rightarrow> u8 list \<times> u8 list" where
  "fread_n stride 0 st = st"
| "fread_n stride (Suc n) st = (case fread_n stride n st of (buf, fp) \<Rightarrow> fread stride buf fp)"

definition row_read :: "nat \<Rightarrow> u8 list \<Rightarrow> u8 list \<Rightarrow> nat \<Rightarrow> u8 list" where
  "row_read stride buf fp k = fst (fread_n stride (Suc k) (buf, fp))"

definition bgr_pixels :: "nat \<Rightarrow> u8 list \<Rightarrow> Pixel list" where
  "bgr_pixels w buf =
     map (\<lambda>col. \<lparr>r = buf ! (col * 3 + 2), g = buf ! (col * 3 + 1), b = buf ! (col * 3)\<rparr>) [0..<w]"

definition buffer_row :: "nat \<Rightarrow> Pixel list \<Rightarrow> nat \<Rightarrow> Pixel list" where
  "buffer_row w pixels k = take w (drop (k * w) pixels)"

text \<open>The \<^verbatim>\<open>dst_row\<close> of the outer loop.\<close>

definition dst_row_of :: "bool \<Rightarrow> nat \<Rightarrow> nat \<Rightarrow> nat" where
  "dst_row_of top_down h row = (if top_down then row else h - 1 - row)"

text \<open>
  An example: a bitmap of two rows of two pixels, whose pixel data starts at offset 2;
  each row is six bytes of pixels and two bytes of padding.
\<close>

definition ex_env :: env where
  "ex_env = \<lparr>malloc_ok = (\<lambda>_. True), fresh_byte = (\<lambda>_. 0)\<rparr>"

definition ex_fh :: BMPFileHeader where
  "ex_fh = \<lparr>bfType = 0x4D42, bfSize = 70, bfReserved1 = 0, bfReserved2 = 0, bfOffBits = 2\<rparr>"

definition ex_ih :: "32 word \<Rightarrow> BMPInfoHeader" where
  "ex_ih height = \<lparr>biSize = 40, biWidth = 2, biHeight = height, biPlanes = 1, biBitCount = 24,
     biCompression = 0, biSizeImage = 0, biXPelsPerMeter = 0, biYPelsPerMeter = 0,
     biClrUsed = 0, biClrImportant = 0\<rparr>"

definition ex_file :: "u8 list" where
  "ex_file = [0x42, 0x4D, 1, 2, 3, 4, 5, 6, 0, 0, 11, 12, 13, 14, 15, 16, 0, 0]"

section \<open>Resampler: single-precision arithmetic\<close>

text \<open>
  \<^verbatim>\<open>float\<close> is taken to be the IEEE 754 binary32 format, with every operation
  rounded to it (to nearest, ties to even) and no two operations fused, as C does where
  \<^verbatim>\<open>FLT_EVAL_METHOD\<close> is 0. A finite \<^verbatim>\<open>float\<close> is the rational number it denotes. The format has 24
  significant bits and its normal numbers start at \<open>2 ^ -126\<close>; below that the spacing
  stays \<open>2 ^ -149\<close>. An overflow to infinity is not modelled: it needs a magnitude of
  \<open>2 ^ 128\<close>, and the values that \<^verbatim>\<open>resize_bilinear\<close> computes from its
  \<^verbatim>\<open>int\<close> arguments and its 8-bit channels stay below \<open>2 ^ 63\<close>.
\<close>

text \<open>The number of binary digits of a positive integer.\<close>

function bit_length :: "int \<Rightarrow> nat" where
  "bit_length n = (if n \<le> 0 then 0 else Suc (bit_length (n div 2)))"
  by pat_completeness auto
termination
  by (relation "measure nat") auto

declare bit_length.simps [simp del]

text \<open>The exponent \<open>e\<close> of a positive rational \<open>x\<close>: \<open>2 ^ e \<le> x < 2 ^ (e + 1)\<close>.\<close>

definition ilog2 :: "rat \<Rightarrow> int" where
  "ilog2 x =
     (if 1 \<le> x then int (bit_length \<lfloor>x\<rfloor>) - 1
      else - int (bit_length (\<lceil>1 / x\<rceil> - 1)))"

definition pow2 :: "int \<Rightarrow> rat" where
  "pow2 k = (if 0 \<le> k then 2 ^ nat k else 1 / 2 ^ nat (- k))"

definition round_half_even :: "rat \<Rightarrow> int" where
  "round_half_even q =
     (let n = \<lfloor>q\<rfloor>; f = q - of_int n
      in if f < 1 / 2 then n
         else if 1 / 2 < f then n + 1
         else if even n then n else n + 1)"

definition f32_round :: "rat \<Rightarrow> rat" where
  "f32_round x =
     (if x = 0 then 0
      else
        let a = \<bar>x\<bar>;
            e = max (ilog2 a) (- 126);
            u = pow2 (e - 23)
        in sgn x * (of_int (round_half_even (a / u)) * u))"

text \<open>The unit roundoff of the format.\<close>

definition eps :: rat where
  "eps = 1 / 2 ^ 24"

definition f32_of_int :: "int \<Rightarrow> rat" where
  "f32_of_int n = f32_round (of_int n)"

definition f32_add :: "rat \<Rightarrow> rat \<Rightarrow> rat" where
  "f32_add x y = f32_round (x + y)"

definition f32_sub :: "rat \<Rightarrow> rat \<Rightarrow> rat" where
  "f32_sub x y = f32_round (x - y)"

definition f32_mul :: "rat \<Rightarrow> rat \<Rightarrow> rat" where
  "f32_mul x y = f32_round (x * y)"

definition f32_div :: "rat \<Rightarrow> rat \<Rightarrow> rat" where
  "f32_div x y = f32_round (x / y)"

text \<open>
  The conversions \<^verbatim>\<open>(int)\<close> and \<^verbatim>\<open>(uint8_t)\<close> of a \<^verbatim>\<open>float\<close> drop the
  fraction; they are undefined (\<open>None\<close>) when the integral part is outside the type.
\<close>

definition truncate :: "rat \<Rightarrow> int" where
  "truncate x = (if 0 \<le> x then \<lfloor>x\<rfloor> else \<lceil>x\<rceil>)"

definition f32_to_int :: "rat \<Rightarrow> int option" where
  "f32_to_int x = (if in_int (truncate x) then Some (truncate x) else None)"

definition f32_to_u8 :: "rat \<Rightarrow> u8 option" where
  "f32_to_u8 x =
     (if 0 \<le> truncate x \<and> truncate x \<le> 255 then Some (word_of_int (truncate x)) else None)"

section \<open>Resampler: \<^verbatim>\<open>resize_bilinear\<close> and its call in main (\<^verbatim>\<open>bmp_to_hex.c\<close>)\<close>

text \<open>\<^verbatim>\<open>float x_scale = (float)src_w / dst_w\<close>, and the same for \<^verbatim>\<open>y_scale\<close>.\<close>

definition scale_of :: "int \<Rightarrow> int \<Rightarrow> rat" where
  "scale_of src_n dst_n = f32_div (f32_of_int src_n) (f32_of_int dst_n)"

text \<open>
  One axis of the body of the loops: \<^verbatim>\<open>src_xf = dst_x * x_scale\<close>,
  \<^verbatim>\<open>x0 = (int)src_xf\<close> and \<^verbatim>\<open>x1 = x0 + 1 < src_w ? x0 + 1 : x0\<close>; the same
  three lines give \<^verbatim>\<open>src_yf\<close>, \<^verbatim>\<open>y0\<close> and \<^verbatim>\<open>y1\<close>.
\<close>

definition axis_coords :: "rat \<Rightarrow> int \<Rightarrow> int \<Rightarrow> error + (rat \<times> int \<times> int)" where
  "axis_coords scale dst_i src_n =
     (let src_f = f32_mul (f32_of_int dst_i) scale in
      case f32_to_int src_f of
        None \<Rightarrow> Inl UndefinedBehaviour
      | Some i0 \<Rightarrow>
          if \<not> in_int (i0 + 1) then Inl UndefinedBehaviour
          else Inr (src_f, i0, (if i0 + 1 < src_n then i0 + 1 else i0)))"

text \<open>
  The neighbour indices \<open>(x0, y0, x1, y1)\<close> that the body of the loops computes for the
  destination pixel \<open>(dst_x, dst_y)\<close>.
\<close>

definition sample_coords ::
  "int \<Rightarrow> int \<Rightarrow> int \<Rightarrow> int \<Rightarrow> int \<Rightarrow> int \<Rightarrow> error + (int \<times> int \<times> int \<times> int)" where
  "sample_coords src_w src_h dst_w dst_h dst_x dst_y =
     (case axis_coords (scale_of src_w dst_w) dst_x src_w of
        Inl e \<Rightarrow> Inl e
      | Inr (src_xf, x0, x1) \<Rightarrow>
          (case axis_coords (scale_of src_h dst_h) dst_y src_h of
             Inl e \<Rightarrow> Inl e
           | Inr (src_yf, y0, y1) \<Rightarrow> Inr (x0, y0, x1, y1)))"

text \<open>
  \<^verbatim>\<open>src[y * src_w + x]\<close>: the index is computed in \<^verbatim>\<open>int\<close>; a read outside the
  array is undefined.
\<close>

definition src_at :: "Pixel list \<Rightarrow> int \<Rightarrow> int \<Rightarrow> int \<Rightarrow> error + Pixel" where
  "src_at src src_w x y =
     (if \<not> in_int (y * src_w) \<or> \<not> in_int (y * src_w + x) then Inl UndefinedBehaviour
      else if 0 \<le> y * src_w + x \<and> y * src_w + x < int (length src)
      then Inr (src ! nat (y * src_w + x))
      else Inl UndefinedBehaviour)"

text \<open>
  One channel of the interpolation: the four products are evaluated from the left, the
  sum from the left, every operation in \<^verbatim>\<open>float\<close>; the cast to \<^verbatim>\<open>uint8_t\<close>
  comes last.
\<close>

definition blend :: "rat \<Rightarrow> rat \<Rightarrow> u8 \<Rightarrow> u8 \<Rightarrow> u8 \<Rightarrow> u8 \<Rightarrow> u8 option" where
  "blend dx dy c00 c10 c01 c11 =
     (let one_dx = f32_sub 1 dx;
          one_dy = f32_sub 1 dy;
          t00 = f32_mul (f32_mul (f32_of_int (uint c00)) one_dx) one_dy;
          t10 = f32_mul (f32_mul (f32_of_int (uint c10)) dx) one_dy;
          t01 = f32_mul (f32_mul (f32_of_int (uint c01)) one_dx) dy;
          t11 = f32_mul (f32_mul (f32_of_int (uint c11)) dx) dy
      in f32_to_u8 (f32_add (f32_add (f32_add t00 t10) t01) t11))"

text \<open>The body of the loops: the pixel stored at \<^verbatim>\<open>dst[dst_y * dst_w + dst_x]\<close>.\<close>

definition resize_pixel ::
  "Pixel list \<Rightarrow> int \<Rightarrow> int \<Rightarrow> rat \<Rightarrow> rat \<Rightarrow> int \<Rightarrow> int \<Rightarrow> error + Pixel" where
  "resize_pixel src src_w src_h x_scale y_scale dst_x dst_y =
     (case axis_coords x_scale dst_x src_w of
        Inl e \<Rightarrow> Inl e
      | Inr (src_xf, x0, x1) \<Rightarrow>
     (case axis_coords y_scale dst_y src_h of
        Inl e \<Rightarrow> Inl e
      | Inr (src_yf, y0, y1) \<Rightarrow>
     (let dx = f32_sub src_xf (f32_of_int x0);
          dy = f32_sub src_yf (f32_of_int y0)
      in
     (case src_at src src_w x0 y0 of Inl e \<Rightarrow> Inl e | Inr p00 \<Rightarrow>
     (case src_at src src_w x1 y0 of Inl e \<Rightarrow> Inl e | Inr p10 \<Rightarrow>
     (case src_at src src_w x0 y1 of Inl e \<Rightarrow> Inl e | Inr p01 \<Rightarrow>
     (case src_at src src_w x1 y1 of Inl e \<Rightarrow> Inl e | Inr p11 \<Rightarrow>
     (case (blend dx dy (r p00) (r p10) (r p01) (r p11),
            blend dx dy (g p00) (g p10) (g p01) (g p11),
            blend dx dy (b p00) (b p10) (b p01) (b p11)) of
        (Some rv, Some gv, Some bv) \<Rightarrow> Inr \<lparr>r = rv, g = gv, b = bv\<rparr>
      | _ \<Rightarrow> Inl UndefinedBehaviour))))))))"

text \<open>
  \<^verbatim>\<open>Pixel *resize_bilinear(Pixel *src, int src_w, int src_h, int dst_w, int dst_h)\<close>.
  The result \<open>Inl MemoryAllocationFailed\<close> is the null pointer that the function returns
  when \<^verbatim>\<open>malloc\<close> fails. The two loops run over \<open>0 \<le> dst_y < dst_h\<close> and
  \<open>0 \<le> dst_x < dst_w\<close>; the size passed to \<^verbatim>\<open>malloc\<close> is a 64-bit
  \<^verbatim>\<open>size_t\<close>. When \<^verbatim>\<open>dst_w\<close> or \<^verbatim>\<open>dst_h\<close> is not positive no pixel is
  computed, and the scales, which C may then make infinite or not a number, are not used.
\<close>

definition resize_step ::
  "Pixel list \<Rightarrow> int \<Rightarrow> int \<Rightarrow> int \<Rightarrow> rat \<Rightarrow> rat \<Rightarrow> nat \<Rightarrow> nat
    \<Rightarrow> error + Pixel list \<Rightarrow> error + Pixel list" where
  "resize_step src src_w src_h dst_w x_scale y_scale dst_y dst_x acc =
     (case acc of
        Inl e \<Rightarrow> Inl e
      | Inr dst \<Rightarrow>
          (case resize_pixel src src_w src_h x_scale y_scale (int dst_x) (int dst_y) of
             Inl e \<Rightarrow> Inl e
           | Inr p \<Rightarrow> Inr (dst[dst_y * nat dst_w + dst_x := p])))"

definition resize_bilinear ::
  "env \<Rightarrow> Pixel list \<Rightarrow> int \<Rightarrow> int \<Rightarrow> int \<Rightarrow> int \<Rightarrow> error + Pixel list" where
  "resize_bilinear e src src_w src_h dst_w dst_h =
     (if \<not> in_int (dst_w * dst_h) then Inl UndefinedBehaviour
      else if \<not> malloc_ok e (nat ((dst_w * dst_h) mod 2 ^ 64) * 3 mod 2 ^ 64)
      then Inl MemoryAllocationFailed
      else
        let dst = fresh_pixels e (nat (dst_w * dst_h));
            x_scale = scale_of src_w dst_w;
            y_scale = scale_of src_h dst_h
        in fold (\<lambda>dst_y. fold (resize_step src src_w src_h dst_w x_scale y_scale dst_y)
                            [0..<nat dst_w])
             [0..<nat dst_h] (Inr dst))"

definition OUT_WIDTH :: int where
  "OUT_WIDTH = 320"

definition OUT_HEIGHT :: int where
  "OUT_HEIGHT = 240"

text \<open>
  \<^verbatim>\<open>main\<close> from \<^verbatim>\<open>Pixel *out_pixels = NULL\<close> to the end of the
  \<^verbatim>\<open>if\<close>: the result is \<^verbatim>\<open>out_pixels\<close>, or \<open>Inl ResizeFailed\<close> for the
  \<^verbatim>\<open>return 1\<close> after a null pointer.
\<close>

definition main_resize :: "env \<Rightarrow> Pixel list \<Rightarrow> int \<Rightarrow> int \<Rightarrow> error + Pixel list" where
  "main_resize e src_pixels src_w src_h =
     (if src_w = OUT_WIDTH \<and> src_h = OUT_HEIGHT then Inr src_pixels
      else
        (case resize_bilinear e src_pixels src_w src_h OUT_WIDTH OUT_HEIGHT of
           Inl MemoryAllocationFailed \<Rightarrow> Inl ResizeFailed
         | Inl err \<Rightarrow> Inl err
         | Inr out_pixels \<Rightarrow> Inr out_pixels))"

section \<open>Word arithmetic used below\<close>

lemma lit_0x1F: "(0x1F :: 'a::len word) = mask 5"
  by (simp add: mask_eq_exp_minus_1)

lemma lit_0x3F: "(0x3F :: 'a::len word) = mask 6"
  by (simp add: mask_eq_exp_minus_1)

lemma unat_and_mask: "unat ((w :: 'a::len word) AND mask n) = unat w mod 2 ^ n"
proof -
  have "w AND mask n = take_bit n w"
    by (simp add: take_bit_eq_mask)
  then have "unat (w AND mask n) = take_bit n (unat w)"
    by (simp only: unsigned_take_bit_eq)
  then show ?thesis
    by (simp only: take_bit_eq_mod)
qed

lemma unat_shift_right: "unat (drop_bit k (w :: 'a::len word)) = unat w div 2 ^ k"
  unfolding unat_drop_bit_eq by (rule drop_bit_eq_div)

lemma unat_u8_less: "unat (x :: u8) < 256"
  using unsigned_less [of x, where 'a = nat] by simp

lemma unat_widen_u8: "unat (ucast (x :: u8) :: c_int) = unat x"
  using unat_u8_less [of x] by (simp add: unsigned_ucast_eq take_bit_nat_eq_self_iff)

section \<open>ColorCodec: the claims\<close>

lemma narrow_shift3: "(ucast (drop_bit 3 (ucast rv :: c_int) AND 0x1F) :: u16) = ucast (drop_bit 3 (rv::u8))"
  unfolding lit_0x1F
  by (rule bit_word_eqI) (auto simp: bit_simps dest: bit_imp_le_length)

lemma narrow_shift2: "(ucast (drop_bit 2 (ucast gv :: c_int) AND 0x3F) :: u16) = ucast (drop_bit 2 (gv::u8))"
  unfolding lit_0x3F
  by (rule bit_word_eqI) (auto simp: bit_simps dest: bit_imp_le_length)

lemma to_rgb565_packed: "to_rgb565 rv gv bv =
    push_bit 11 (ucast (drop_bit 3 rv)) OR push_bit 5 (ucast (drop_bit 2 gv)) OR ucast (drop_bit 3 bv)"
  unfolding to_rgb565_def Let_def narrow_shift3 narrow_shift2
  by (rule bit_word_eqI) (auto simp: bit_simps dest: bit_imp_le_length)

lemma to_rgb565_red: "drop_bit 11 (to_rgb565 rv gv bv) = ucast (drop_bit 3 rv)"
  unfolding to_rgb565_packed
  by (rule bit_word_eqI) (auto simp: bit_simps dest: bit_imp_le_length)

lemma to_rgb565_green: "drop_bit 5 (to_rgb565 rv gv bv) AND 0x3F = ucast (drop_bit 2 gv)"
  unfolding to_rgb565_packed lit_0x3F
  by (rule bit_word_eqI) (auto simp: bit_simps dest: bit_imp_le_length)

lemma to_rgb565_blue: "to_rgb565 rv gv bv AND 0x1F = ucast (drop_bit 3 bv)"
  unfolding to_rgb565_packed lit_0x1F
  by (rule bit_word_eqI) (auto simp: bit_simps dest: bit_imp_le_length)


lemma unat_widen_u8_u16: "unat (ucast (x :: u8) :: u16) = unat x"
  using unat_u8_less [of x] by (simp add: unsigned_ucast_eq take_bit_nat_eq_self_iff)

lemma unat_push_u16: "unat (x :: u16) * 2 ^ k < 65536 \<Longrightarrow> unat (push_bit k x) = unat x * 2 ^ k"
proof -
  assume a: "unat x * 2 ^ k < 65536"
  have "unat (push_bit k x) = take_bit 16 (push_bit k (unat x))"
    by (simp only: unsigned_push_bit_eq) simp
  also have "push_bit k (unat x) = unat x * 2 ^ k"
    by (rule push_bit_eq_mult)
  also have "take_bit 16 (unat x * 2 ^ k) = unat x * 2 ^ k"
    using a by (simp add: take_bit_nat_eq_self_iff)
  finally show ?thesis .
qed

lemma to_rgb565_unat:
  "unat (to_rgb565 rv gv bv) = (unat rv div 8) * 2048 + (unat gv div 4) * 32 + unat bv div 8"
proof -
  let ?R = "push_bit 11 (ucast (drop_bit 3 rv)) :: u16"
  let ?G = "push_bit 5 (ucast (drop_bit 2 gv)) :: u16"
  let ?B = "ucast (drop_bit 3 bv) :: u16"
  have r: "unat rv div 8 < 32" and g: "unat gv div 4 < 64" and b: "unat bv div 8 < 32"
    using unat_u8_less [of rv] unat_u8_less [of gv] unat_u8_less [of bv] by auto
  have uR: "unat ?R = (unat rv div 8) * 2048"
    using r by (subst unat_push_u16) (simp_all add: unat_widen_u8_u16 unat_shift_right)
  have uG: "unat ?G = (unat gv div 4) * 32"
    using g by (subst unat_push_u16) (simp_all add: unat_widen_u8_u16 unat_shift_right)
  have uB: "unat ?B = unat bv div 8"
    by (simp add: unat_widen_u8_u16 unat_shift_right)
  have 1: "?G OR ?B = ?G + ?B"
    by (rule disjunctive_add_eq_or [symmetric]) (rule bit_word_eqI, auto simp: bit_simps dest: bit_imp_le_length)
  have 2: "?R OR (?G OR ?B) = ?R + (?G OR ?B)"
    by (rule disjunctive_add_eq_or [symmetric]) (rule bit_word_eqI, auto simp: bit_simps dest: bit_imp_le_length)
  have 3: "unat (?G + ?B) = unat ?G + unat ?B"
    using g b by (subst unat_add_lem [THEN iffD1]) (simp_all add: uG uB)
  have 4: "unat (?R + (?G + ?B)) = unat ?R + unat (?G + ?B)"
    using r g b by (subst unat_add_lem [THEN iffD1]) (simp_all add: uR uG uB 3)
  have "unat (?R OR ?G OR ?B) = unat (?R + (?G OR ?B))"
    by (simp only: 2)
  also have "\<dots> = unat (?R + (?G + ?B))"
    by (simp only: 1)
  also have "\<dots> = unat ?R + unat ?G + unat ?B"
    by (simp only: 3 4 add.assoc)
  finally have "unat (?R OR ?G OR ?B) = unat ?R + unat ?G + unat ?B" .
  then show ?thesis
    by (simp only: to_rgb565_packed uR uG uB)
qed

text \<open>
  Claim C6. For every 8-bit triple, \<open>to_rgb565\<close> returns
  \<open>((r >> 3) << 11) | ((g >> 2) << 5) | (b >> 3)\<close>: the top five bits of red are bits 15 to
  11 of the result, the top six bits of green bits 10 to 5, the top five bits of blue bits 4
  to 0. The low bits are cut off, nothing is rounded: as a number the result is
  \<open>(r div 8) * 2048 + (g div 4) * 32 + b div 8\<close>.
\<close>
theorem to_rgb565_layout:
  "to_rgb565 rv gv bv =
     push_bit 11 (ucast (drop_bit 3 rv)) OR push_bit 5 (ucast (drop_bit 2 gv)) OR ucast (drop_bit 3 bv)
   \<and> drop_bit 11 (to_rgb565 rv gv bv) = ucast (drop_bit 3 rv)
   \<and> drop_bit 5 (to_rgb565 rv gv bv) AND 0x3F = ucast (drop_bit 2 gv)
   \<and> to_rgb565 rv gv bv AND 0x1F = ucast (drop_bit 3 bv)
   \<and> unat (to_rgb565 rv gv bv) = (unat rv div 8) * 2048 + (unat gv div 4) * 32 + unat bv div 8"
  using to_rgb565_packed [of rv gv bv] to_rgb565_red [of rv gv bv] to_rgb565_green [of rv gv bv]
    to_rgb565_blue [of rv gv bv] to_rgb565_unat [of rv gv bv]
  by (intro conjI)

lemma shift3_mask_id: "drop_bit 3 (ucast (x::u8) :: c_int) AND 0x1F = drop_bit 3 (ucast x)"
  unfolding lit_0x1F
  by (rule bit_word_eqI) (auto simp: bit_simps dest: bit_imp_le_length)

lemma shift2_mask_id: "drop_bit 2 (ucast (x::u8) :: c_int) AND 0x3F = drop_bit 2 (ucast x)"
  unfolding lit_0x3F
  by (rule bit_word_eqI) (auto simp: bit_simps dest: bit_imp_le_length)

text \<open>
  Claim C10. \<open>to_rgb565\<close> depends on the top bits of each channel only: two triples that
  agree on \<open>r >> 3\<close>, \<open>g >> 2\<close> and \<open>b >> 3\<close> are packed to the same value, and the masks
  \<open>0x1F\<close>, \<open>0x3F\<close>, \<open>0x1F\<close> applied after the shifts leave the shifted values as they are.
\<close>
theorem to_rgb565_top_bits:
  assumes "drop_bit 3 rv = drop_bit 3 rv'" and "drop_bit 2 gv = drop_bit 2 gv'"
    and "drop_bit 3 bv = drop_bit 3 bv'"
  shows "to_rgb565 rv gv bv = to_rgb565 rv' gv' bv'
    \<and> drop_bit 3 (ucast rv :: c_int) AND 0x1F = drop_bit 3 (ucast rv)
    \<and> drop_bit 2 (ucast gv :: c_int) AND 0x3F = drop_bit 2 (ucast gv)
    \<and> drop_bit 3 (ucast bv :: c_int) AND 0x1F = drop_bit 3 (ucast bv)"
  using assms by (simp add: to_rgb565_packed shift3_mask_id shift2_mask_id)

text \<open>The theorem at two triples that differ in their low bits only.\<close>

theorem to_rgb565_top_bits_witness:
  "drop_bit 3 (0xF8 :: u8) = drop_bit 3 (0xFF :: u8) \<and> drop_bit 2 (0x84 :: u8) = drop_bit 2 (0x87 :: u8)
   \<and> drop_bit 3 (0x10 :: u8) = drop_bit 3 (0x17 :: u8)
   \<and> to_rgb565 0xF8 0x84 0x10 = to_rgb565 0xFF 0x87 0x17"
proof -
  have a: "drop_bit 3 (0xF8 :: u8) = drop_bit 3 (0xFF :: u8)" by simp
  have b: "drop_bit 2 (0x84 :: u8) = drop_bit 2 (0x87 :: u8)" by simp
  have c: "drop_bit 3 (0x10 :: u8) = drop_bit 3 (0x17 :: u8)" by simp
  show ?thesis using to_rgb565_top_bits [OF a b c] a b c by blast
qed


lemma unat_narrow_u16: "unat (w :: u16) < 256 \<Longrightarrow> unat (ucast w :: u8) = unat w"
  by (simp add: unsigned_ucast_eq take_bit_nat_eq_self_iff)

lemma unat_narrow_int: "unat (w :: c_int) < 256 \<Longrightarrow> unat (ucast w :: u8) = unat w"
  by (simp add: unsigned_ucast_eq take_bit_nat_eq_self_iff)

lemma r5_of_word: "r5_of p = ucast (drop_bit 11 p AND 0x1F)"
  unfolding r5_of_def lit_0x1F
  by (rule bit_word_eqI) (auto simp: bit_simps dest: bit_imp_le_length)

lemma g6_of_word: "g6_of p = ucast (drop_bit 5 p AND 0x3F)"
  unfolding g6_of_def lit_0x3F
  by (rule bit_word_eqI) (auto simp: bit_simps dest: bit_imp_le_length)

lemma b5_of_word: "b5_of p = ucast (p AND 0x1F)"
  unfolding b5_of_def lit_0x1F
  by (rule bit_word_eqI) (auto simp: bit_simps dest: bit_imp_le_length)

lemma unat_field5: "unat ((w :: u16) AND 0x1F) < 32"
  unfolding lit_0x1F unat_and_mask by simp

lemma unat_field6: "unat ((w :: u16) AND 0x3F) < 64"
  unfolding lit_0x3F unat_and_mask by simp

lemma unat_r5_of: "unat (r5_of p) = unat (drop_bit 11 p AND 0x1F)"
  unfolding r5_of_word using unat_field5 [of "drop_bit 11 p"] by (intro unat_narrow_u16) simp

lemma unat_g6_of: "unat (g6_of p) = unat (drop_bit 5 p AND 0x3F)"
  unfolding g6_of_word using unat_field6 [of "drop_bit 5 p"] by (intro unat_narrow_u16) simp

lemma unat_b5_of: "unat (b5_of p) = unat (p AND 0x1F)"
  unfolding b5_of_word using unat_field5 [of p] by (intro unat_narrow_u16) simp

lemma unat_scale5: "unat (scale5 v) = unat v * 255 div 31"
proof -
  have "unat (ucast v :: c_int) * unat (255 :: c_int) < 2 ^ LENGTH(32)"
    using unat_u8_less [of v] by (simp add: unat_widen_u8)
  then have "unat ((ucast v :: c_int) * 255) = unat (ucast v :: c_int) * unat (255 :: c_int)"
    by (simp only: unat_mult_lem)
  then show ?thesis
    by (simp add: scale5_def unat_div unat_widen_u8)
qed

lemma unat_scale6: "unat (scale6 v) = unat v * 255 div 63"
proof -
  have "unat (ucast v :: c_int) * unat (255 :: c_int) < 2 ^ LENGTH(32)"
    using unat_u8_less [of v] by (simp add: unat_widen_u8)
  then have "unat ((ucast v :: c_int) * 255) = unat (ucast v :: c_int) * unat (255 :: c_int)"
    by (simp only: unat_mult_lem)
  then show ?thesis
    by (simp add: scale6_def unat_div unat_widen_u8)
qed

lemma scale5_le: "unat v \<le> 31 \<Longrightarrow> unat (scale5 v) \<le> 255"
  unfolding unat_scale5 by simp

lemma scale6_le: "unat v \<le> 63 \<Longrightarrow> unat (scale6 v) \<le> 255"
  unfolding unat_scale6 by simp

lemma r5_of_le: "unat (r5_of p) \<le> 31"
  using unat_field5 [of "drop_bit 11 p"] by (simp add: unat_r5_of)

lemma g6_of_le: "unat (g6_of p) \<le> 63"
  using unat_field6 [of "drop_bit 5 p"] by (simp add: unat_g6_of)

lemma b5_of_le: "unat (b5_of p) \<le> 31"
  using unat_field5 [of p] by (simp add: unat_b5_of)

lemma unat_r8: "unat (ucast (scale5 (r5_of p)) :: u8) = unat (scale5 (r5_of p))"
  using scale5_le [OF r5_of_le, of p] by (intro unat_narrow_int) simp

lemma unat_g8: "unat (ucast (scale6 (g6_of p)) :: u8) = unat (scale6 (g6_of p))"
  using scale6_le [OF g6_of_le, of p] by (intro unat_narrow_int) simp

lemma unat_b8: "unat (ucast (scale5 (b5_of p)) :: u8) = unat (scale5 (b5_of p))"
  using scale5_le [OF b5_of_le, of p] by (intro unat_narrow_int) simp

text \<open>
  Claim C7. For every 16-bit value the expansion returns a triple of channels (it has no
  failing branch: the divisors are the constants 31 and 63), and the channels are
  \<open>((p >> 11) & 0x1F) * 255 div 31\<close>, \<open>((p >> 5) & 0x3F) * 255 div 63\<close> and
  \<open>(p & 0x1F) * 255 div 31\<close>, with truncating division.
\<close>
theorem rgb565_to_rgb888_formula:
  "\<exists>r8 g8 b8. rgb565_to_rgb888 p = (r8, g8, b8)
     \<and> unat r8 = unat (drop_bit 11 p AND 0x1F) * 255 div 31
     \<and> unat g8 = unat (drop_bit 5 p AND 0x3F) * 255 div 63
     \<and> unat b8 = unat (p AND 0x1F) * 255 div 31"
  by (simp add: rgb565_to_rgb888_def unat_r8 unat_g8 unat_b8 unat_scale5 unat_scale6
      unat_r5_of unat_g6_of unat_b5_of)

text \<open>
  Claim C9. For every 16-bit value the extracted fields are at most 31, 63 and 31, each
  \<^verbatim>\<open>int\<close> expression \<open>field * 255 / max\<close> is at most 255, and so the cast to
  \<^verbatim>\<open>uint8_t\<close> changes no value: each channel of the result, read as a number, is the
  \<^verbatim>\<open>int\<close> expression it was cast from.
\<close>
theorem rgb888_cast_exact:
  "unat (r5_of p) \<le> 31 \<and> unat (g6_of p) \<le> 63 \<and> unat (b5_of p) \<le> 31
   \<and> unat (scale5 (r5_of p)) \<le> 255
   \<and> unat (scale6 (g6_of p)) \<le> 255
   \<and> unat (scale5 (b5_of p)) \<le> 255
   \<and> (\<exists>r8 g8 b8. rgb565_to_rgb888 p = (r8, g8, b8)
        \<and> unat r8 = unat (scale5 (r5_of p))
        \<and> unat g8 = unat (scale6 (g6_of p))
        \<and> unat b8 = unat (scale5 (b5_of p)))"
  using r5_of_le [of p] g6_of_le [of p] b5_of_le [of p]
  by (simp add: rgb565_to_rgb888_def unat_r8 unat_g8 unat_b8 scale5_le scale6_le)

text \<open>
  Claim C8. Decoding after encoding is exact at both ends of the range, white
  \<open>(255, 255, 255)\<close> and black \<open>(0, 0, 0)\<close>, and is not the identity: \<open>(1, 1, 1)\<close> comes
  back as \<open>(0, 0, 0)\<close>.
\<close>
theorem codec_round_trip_ends:
  "rgb565_to_rgb888 (to_rgb565 255 255 255) = (255, 255, 255)
   \<and> rgb565_to_rgb888 (to_rgb565 0 0 0) = (0, 0, 0)
   \<and> rgb565_to_rgb888 (to_rgb565 1 1 1) = (0, 0, 0)
   \<and> (\<exists>rv gv bv. rgb565_to_rgb888 (to_rgb565 rv gv bv) \<noteq> (rv, gv, bv))"
proof -
  have a: "rgb565_to_rgb888 (to_rgb565 255 255 255) = (255, 255, 255)"
    by (simp add: rgb565_to_rgb888_def to_rgb565_def r5_of_def g6_of_def b5_of_def scale5_def scale6_def)
  have b: "rgb565_to_rgb888 (to_rgb565 0 0 0) = (0, 0, 0)"
    by (simp add: rgb565_to_rgb888_def to_rgb565_def r5_of_def g6_of_def b5_of_def scale5_def scale6_def)
  have c: "rgb565_to_rgb888 (to_rgb565 1 1 1) = (0, 0, 0)"
    by (simp add: rgb565_to_rgb888_def to_rgb565_def r5_of_def g6_of_def b5_of_def scale5_def scale6_def)
  from c have "rgb565_to_rgb888 (to_rgb565 1 1 1) \<noteq> (1, 1, 1)" by simp
  then have "\<exists>rv gv bv. rgb565_to_rgb888 (to_rgb565 rv gv bv) \<noteq> (rv, gv, bv)" by blast
  with a b c show ?thesis by blast
qed

section \<open>ResilientHexDecoder: the claims\<close>

lemma isspace_NUL [simp]: "\<not> isspace NUL"
  by (simp add: isspace_def NUL_def)

lemma c_string_skip_space: "c_string (skip_space l) = dropWhile isspace (c_string l)"
  by (induction l) (auto simp: c_string_def)

lemma comment_test:
  "(case l of c0 # c1 # _ \<Rightarrow> c0 = CHR ''/'' \<and> c1 = CHR ''/'' | _ \<Rightarrow> False)
    \<longleftrightarrow> take 2 (c_string l) = ''//''"
  by (auto simp: c_string_def NUL_def split: list.splits)

lemma copy_buf_take:
  "copy_buf n l = take (63 - n) (takeWhile (\<lambda>c. c \<noteq> CR \<and> c \<noteq> LF) (c_string l))"
proof (induction l arbitrary: n)
  case Nil
  then show ?case by (simp add: c_string_def)
next
  case (Cons c cs)
  show ?case
  proof (cases "c \<noteq> NUL \<and> c \<noteq> CR \<and> c \<noteq> LF \<and> n < 63")
    case True
    then obtain m where m: "63 - n = Suc m" "63 - Suc n = m"
      by (cases "63 - n") auto
    with True Cons.IH [of "Suc n"] show ?thesis
      by (simp add: c_string_def)
  next
    case False
    then show ?thesis
      by (auto simp: c_string_def)
  qed
qed

lemma has_unknown_iff: "has_unknown s \<longleftrightarrow> CHR ''x'' \<in> set s \<or> CHR ''X'' \<in> set s"
  by (induction s) auto

lemma has_non_hex_iff: "has_non_hex s \<longleftrightarrow> \<not> list_all isxdigit s"
  by (induction s) auto

lemma hex_accum_all: "list_all isxdigit s \<Longrightarrow> hex_accum a s = foldl (\<lambda>a c. 16 * a + xdigit_val c) a s"
  by (induction s arbitrary: a) (auto simp: mult.commute)

lemma xdigit_val_less: "xdigit_val c < 16"
  by (auto simp: xdigit_val_def Let_def)

lemma foldl_hex_bound: "a < 16 ^ k \<Longrightarrow> foldl (\<lambda>a c. 16 * a + xdigit_val c) a s < 16 ^ (k + length s)"
proof (induction s arbitrary: a k)
  case Nil
  then show ?case by simp
next
  case (Cons c cs)
  have "16 * a + xdigit_val c < 16 ^ Suc k"
    using Cons.prems xdigit_val_less [of c] by simp
  from Cons.IH [OF this] show ?case by simp
qed

lemma hex_value_bound: "hex_value s < 16 ^ length s"
  using foldl_hex_bound [of 0 0 s] by (simp add: hex_value_def)

lemma isxdigit_facts: "isxdigit c \<Longrightarrow> \<not> isspace c \<and> c \<noteq> NUL \<and> c \<noteq> CHR ''+'' \<and> c \<noteq> CHR ''-'' \<and> c \<noteq> CHR ''x'' \<and> c \<noteq> CHR ''X''"
  by (auto simp: isxdigit_def isspace_def NUL_def)

lemma strtoul16_digits:
  assumes "list_all isxdigit s" and "s \<noteq> []" and "length s \<le> 4"
  shows "strtoul16 s = word_of_nat (hex_value s)"
proof -
  obtain c cs where s: "s = c # cs" using assms(2) by (cases s) auto
  have nn: "takeWhile (\<lambda>c. c \<noteq> NUL) s = s"
    using assms(1) by (induction s) (auto dest: isxdigit_facts)
  have c: "isxdigit c" using assms(1) s by simp
  have s1: "dropWhile isspace s = s"
    using c s by (simp add: isxdigit_facts)
  have neg: "(case s of [] \<Rightarrow> False | c # _ \<Rightarrow> c = CHR ''-'') = False"
    using c s by (simp add: isxdigit_facts)
  have s2: "(case s of [] \<Rightarrow> s | c # cs \<Rightarrow> if c = CHR ''+'' \<or> c = CHR ''-'' then cs else s) = s"
    using c s by (simp add: isxdigit_facts)
  have s3: "(case s of z # x # d # cs \<Rightarrow>
                    if z = CHR ''0'' \<and> (x = CHR ''x'' \<or> x = CHR ''X'') \<and> isxdigit d
                    then d # cs else s
                | _ \<Rightarrow> s) = s"
    using assms(1) by (auto split: list.splits dest: isxdigit_facts)
  have "hex_value s < 16 ^ length s" by (rule hex_value_bound)
  also have "\<dots> \<le> (16::nat) ^ 4" using assms(3) by (intro power_increasing) simp_all
  finally have b: "hex_value s < 65536" by simp
  have v: "hex_accum 0 s = hex_value s"
    using assms(1) by (simp add: hex_accum_all hex_value_def)
  have "strtoul16 s =
      (if ULONG_MAX < hex_value s then word_of_nat ULONG_MAX
       else if False then - word_of_nat (hex_value s) else word_of_nat (hex_value s))"
    unfolding strtoul16_def Let_def nn s1 neg s2 s3 v ..
  with b show ?thesis
    by (simp add: ULONG_MAX_def)
qed


lemma lit_0xFFFF: "(0xFFFF :: 'a::len word) = mask 16"
  by (simp add: mask_eq_exp_minus_1)

lemma lit_nat_0xFFFF: "(0xFFFF :: nat) = mask 16"
  by (simp add: mask_eq_exp_minus_1)

lemma mask16_small:
  assumes "v < 65536"
  shows "(ucast ((word_of_nat v :: 64 word) AND 0xFFFF) :: u16) = word_of_nat (v AND 0xFFFF)"
proof -
  have t16: "take_bit 16 v = v" and t64: "take_bit 64 v = v"
    using assms by (simp_all add: take_bit_nat_eq_self_iff)
  have n: "v AND 0xFFFF = v"
    unfolding lit_nat_0xFFFF by (simp add: t16 flip: take_bit_eq_mask)
  have "(word_of_nat v :: 64 word) AND 0xFFFF = take_bit 16 (word_of_nat v)"
    unfolding lit_0xFFFF by (simp add: take_bit_eq_mask)
  also have "\<dots> = word_of_nat v"
    by (simp only: take_bit_of_nat t16)
  finally have a: "(word_of_nat v :: 64 word) AND 0xFFFF = word_of_nat v" .
  have b: "(ucast (word_of_nat v :: 64 word) :: u16) = word_of_nat v"
    by (simp add: unsigned_of_nat t64)
  show ?thesis
    by (simp only: n a b)
qed

text \<open>
  Claim C2. For every line, \<open>parse_rgb565_line\<close> yields a value exactly when, after the
  leading white space is stripped, the line does not begin with two slashes, and its
  content up to the first carriage return or line feed (or to the 63 characters that the
  buffer holds) is not empty, holds no \<open>x\<close> and no \<open>X\<close>, is at most 4 characters long and
  is made of hexadecimal digits only. The value is then the content read in base 16 and
  masked to 16 bits. The line is the C string of the buffer passed to the parser.
\<close>
theorem parse_rgb565_line_spec:
  "parse_rgb565_line line =
     (let s = dropWhile isspace (c_string line);
          content = take 63 (takeWhile (\<lambda>c. c \<noteq> CR \<and> c \<noteq> LF) s)
      in if take 2 s \<noteq> ''//'' \<and> content \<noteq> [] \<and> CHR ''x'' \<notin> set content
            \<and> CHR ''X'' \<notin> set content \<and> length content \<le> 4 \<and> list_all isxdigit content
         then Some (word_of_nat (hex_value content AND 0xFFFF)) else None)"
proof -
  define s where "s = dropWhile isspace (c_string line)"
  define content where "content = take 63 (takeWhile (\<lambda>c. c \<noteq> CR \<and> c \<noteq> LF) s)"
  have cs: "c_string (skip_space line) = s"
    by (simp add: s_def c_string_skip_space)
  have buf: "copy_buf 0 (skip_space line) = content"
    by (simp add: copy_buf_take cs content_def)
  have cm: "(case skip_space line of c0 # c1 # _ \<Rightarrow> c0 = CHR ''/'' \<and> c1 = CHR ''/'' | _ \<Rightarrow> False)
      \<longleftrightarrow> take 2 s = ''//''"
    by (simp only: comment_test cs)
  have val: "ucast (strtoul16 content AND 0xFFFF) = (word_of_nat (hex_value content AND 0xFFFF) :: u16)"
    if "list_all isxdigit content" "content \<noteq> []" "length content \<le> 4"
  proof -
    have "hex_value content < 16 ^ length content" by (rule hex_value_bound)
    also have "\<dots> \<le> (16::nat) ^ 4" using that(3) by (intro power_increasing) simp_all
    finally have "hex_value content < 65536" by simp
    then show ?thesis
      by (simp only: strtoul16_digits [OF that] mask16_small)
  qed
  have "parse_rgb565_line line =
      (if take 2 s = ''//'' then None
       else if length content = 0 then None
       else if has_unknown content then None
       else if has_non_hex content then None
       else if length content > 4 then None
       else Some (ucast (strtoul16 content AND 0xFFFF)))"
    unfolding parse_rgb565_line_def Let_def cm buf ..
  also have "\<dots> = (if take 2 s \<noteq> ''//'' \<and> content \<noteq> [] \<and> CHR ''x'' \<notin> set content
            \<and> CHR ''X'' \<notin> set content \<and> length content \<le> 4 \<and> list_all isxdigit content
         then Some (word_of_nat (hex_value content AND 0xFFFF)) else None)"
    using val by (auto simp: has_unknown_iff has_non_hex_iff)
  finally show ?thesis
    unfolding Let_def s_def [symmetric] content_def [symmetric] .
qed

text \<open>
  The examples of the specification: \<open>FFFF\<close> yields \<open>0xFFFF\<close>, \<open>1\<close> yields \<open>0x0001\<close>; a
  comment, \<open>xxxx\<close>, \<open>12G4\<close>, a bare line feed and the empty line yield nothing.
\<close>
theorem parse_rgb565_line_examples:
  "parse_rgb565_line (''FFFF'' @ [LF]) = Some 0xFFFF
   \<and> parse_rgb565_line (''//comment'' @ [LF]) = None
   \<and> parse_rgb565_line (''xxxx'' @ [LF]) = None
   \<and> parse_rgb565_line (''12G4'' @ [LF]) = None
   \<and> parse_rgb565_line (''1'' @ [LF]) = Some 0x0001
   \<and> parse_rgb565_line [LF] = None
   \<and> parse_rgb565_line [] = None"
  using parse_rgb565_line_spec [of "''FFFF'' @ [LF]"] parse_rgb565_line_spec [of "''//comment'' @ [LF]"]
    parse_rgb565_line_spec [of "''xxxx'' @ [LF]"] parse_rgb565_line_spec [of "''12G4'' @ [LF]"]
    parse_rgb565_line_spec [of "''1'' @ [LF]"] parse_rgb565_line_spec [of "[LF]"]
    parse_rgb565_line_spec [of "[]"]
  by (simp add: c_string_def isspace_def isxdigit_def NUL_def LF_def CR_def hex_value_def xdigit_val_def)































section \<open>BitmapDecoder: the claim\<close>

lemma pixel_update_all: "p\<lparr>r := x, g := y, b := z\<rparr> = \<lparr>r = x, g = y, b = z\<rparr>"
  by (cases p) simp

lemma store_pixel_eq:
  "store_pixel buf w d col px =
     px[d * w + col := \<lparr>r = buf ! (col * 3 + 2), g = buf ! (col * 3 + 1), b = buf ! (col * 3)\<rparr>]"
  by (simp add: store_pixel_def Let_def pixel_update_all)

lemma store_cols:
  assumes "d * w + n \<le> length px"
  shows "length (fold (store_pixel buf w d) [0..<n] px) = length px
    \<and> (\<forall>c<n. fold (store_pixel buf w d) [0..<n] px ! (d * w + c) =
          \<lparr>r = buf ! (c * 3 + 2), g = buf ! (c * 3 + 1), b = buf ! (c * 3)\<rparr>)
    \<and> (\<forall>j. j < d * w \<or> d * w + n \<le> j \<longrightarrow> fold (store_pixel buf w d) [0..<n] px ! j = px ! j)"
  using assms
proof (induction n)
  case 0
  then show ?case by simp
next
  case (Suc n)
  let ?px = "fold (store_pixel buf w d) [0..<n] px"
  from Suc have ih: "length ?px = length px"
    "\<And>c. c < n \<Longrightarrow> ?px ! (d * w + c) = \<lparr>r = buf ! (c * 3 + 2), g = buf ! (c * 3 + 1), b = buf ! (c * 3)\<rparr>"
    "\<And>j. j < d * w \<or> d * w + n \<le> j \<Longrightarrow> ?px ! j = px ! j"
    by auto
  have step: "fold (store_pixel buf w d) [0..<Suc n] px =
      ?px[d * w + n := \<lparr>r = buf ! (n * 3 + 2), g = buf ! (n * 3 + 1), b = buf ! (n * 3)\<rparr>]"
    by (simp add: store_pixel_eq)
  have in_range: "d * w + n < length ?px"
    using Suc.prems ih(1) by simp
  show ?case
    unfolding step
  proof (intro conjI allI impI)
    show "length (?px[d * w + n := \<lparr>r = buf ! (n * 3 + 2), g = buf ! (n * 3 + 1), b = buf ! (n * 3)\<rparr>]) = length px"
      by (simp add: ih(1))
  next
    fix c assume "c < Suc n"
    then show "?px[d * w + n := \<lparr>r = buf ! (n * 3 + 2), g = buf ! (n * 3 + 1), b = buf ! (n * 3)\<rparr>] ! (d * w + c)
        = \<lparr>r = buf ! (c * 3 + 2), g = buf ! (c * 3 + 1), b = buf ! (c * 3)\<rparr>"
      using in_range ih(2) [of c] by (cases "c = n") (simp_all add: nth_list_update)
  next
    fix j assume "j < d * w \<or> d * w + Suc n \<le> j"
    then show "?px[d * w + n := \<lparr>r = buf ! (n * 3 + 2), g = buf ! (n * 3 + 1), b = buf ! (n * 3)\<rparr>] ! j = px ! j"
      using ih(3) [of j] by (auto simp: nth_list_update)
  qed
qed

lemma store_row:
  assumes "Suc d * w \<le> length px"
  shows "length (fold (store_pixel buf w d) [0..<w] px) = length px"
    and "buffer_row w (fold (store_pixel buf w d) [0..<w] px) d = bgr_pixels w buf"
    and "k \<noteq> d \<Longrightarrow> buffer_row w (fold (store_pixel buf w d) [0..<w] px) k = buffer_row w px k"
proof -
  let ?px = "fold (store_pixel buf w d) [0..<w] px"
  have a: "d * w + w \<le> length px" using assms by simp
  note s = store_cols [OF a, of buf]
  show len: "length ?px = length px" using s by blast
  show "buffer_row w ?px d = bgr_pixels w buf"
  proof (rule nth_equalityI)
    show "length (buffer_row w ?px d) = length (bgr_pixels w buf)"
      using a by (simp add: buffer_row_def bgr_pixels_def len)
  next
    fix i assume "i < length (buffer_row w ?px d)"
    then have i: "i < w" by (simp add: buffer_row_def)
    with a have "buffer_row w ?px d ! i = ?px ! (d * w + i)"
      by (simp add: buffer_row_def len)
    also have "\<dots> = \<lparr>r = buf ! (i * 3 + 2), g = buf ! (i * 3 + 1), b = buf ! (i * 3)\<rparr>"
      using s i by blast
    finally show "buffer_row w ?px d ! i = bgr_pixels w buf ! i"
      using i by (simp add: bgr_pixels_def)
  qed
  show "buffer_row w ?px k = buffer_row w px k" if "k \<noteq> d"
  proof (rule nth_equalityI)
    show "length (buffer_row w ?px k) = length (buffer_row w px k)"
      by (simp add: buffer_row_def len)
  next
    fix i assume "i < length (buffer_row w ?px k)"
    then have i: "i < w" "k * w + i < length px" by (auto simp: buffer_row_def len)
    have "k * w + i < d * w \<or> d * w + w \<le> k * w + i"
    proof (cases "k < d")
      case True
      then have "Suc k \<le> d" by simp
      then have "Suc k * w \<le> d * w" by (rule mult_le_mono1)
      with i show ?thesis by simp
    next
      case False
      with that have "Suc d \<le> k" by simp
      then have "Suc d * w \<le> k * w" by (rule mult_le_mono1)
      then show ?thesis by simp
    qed
    then have "?px ! (k * w + i) = px ! (k * w + i)"
      using s by blast
    with i show "buffer_row w ?px k ! i = buffer_row w px k ! i"
      by (simp add: buffer_row_def len)
  qed
qed

lemma read_rows_prefix:
  assumes "length px = h * w" and "n \<le> h"
  shows "\<exists>px'. fold (read_row w h td stride) [0..<n] (buf, fp, px) =
            (fst (fread_n stride n (buf, fp)), snd (fread_n stride n (buf, fp)), px')
        \<and> length px' = h * w
        \<and> (\<forall>row<n. buffer_row w px' (dst_row_of td h row) = bgr_pixels w (row_read stride buf fp row))"
  using assms(2)
proof (induction n)
  case 0
  then show ?case by (simp add: assms(1))
next
  case (Suc n)
  then obtain px' where
    st: "fold (read_row w h td stride) [0..<n] (buf, fp, px) =
            (fst (fread_n stride n (buf, fp)), snd (fread_n stride n (buf, fp)), px')"
    and len: "length px' = h * w"
    and rows: "\<And>row. row < n \<Longrightarrow>
        buffer_row w px' (dst_row_of td h row) = bgr_pixels w (row_read stride buf fp row)"
    by auto
  obtain b1 f1 where f: "fread_n stride n (buf, fp) = (b1, f1)"
    by (cases "fread_n stride n (buf, fp)")
  obtain b2 f2 where g: "fread stride b1 f1 = (b2, f2)"
    by (cases "fread stride b1 f1")
  have rr: "row_read stride buf fp n = b2"
    by (simp add: row_read_def f g)
  let ?d = "dst_row_of td h n"
  let ?px = "fold (store_pixel b2 w ?d) [0..<w] px'"
  have d: "?d < h" using Suc.prems by (simp add: dst_row_of_def)
  then have "Suc ?d \<le> h" by simp
  then have "Suc ?d * w \<le> h * w" by (rule mult_le_mono1)
  then have fit: "Suc ?d * w \<le> length px'" by (simp add: len)
  have step: "fold (read_row w h td stride) [0..<Suc n] (buf, fp, px) = (b2, f2, ?px)"
    by (simp add: st f g read_row_def dst_row_of_def)
  have "buffer_row w ?px (dst_row_of td h row) = bgr_pixels w (row_read stride buf fp row)"
    if "row < Suc n" for row
  proof (cases "row = n")
    case True
    then show ?thesis using store_row(2) [OF fit] by (simp add: rr)
  next
    case False
    with that have lt: "row < n" by simp
    with Suc.prems have "dst_row_of td h row \<noteq> ?d"
      by (auto simp: dst_row_of_def)
    from store_row(3) [OF fit this] rows [OF lt] show ?thesis by simp
  qed
  moreover have "length ?px = h * w"
    using store_row(1) [OF fit] len by simp
  ultimately show ?case
    unfolding step by (simp add: f g)
qed


text \<open>
  When the file holds all the rows, the row that call \<open>k\<close> reads is the \<open>k\<close>-th block
  of \<open>stride\<close> bytes of the pixel data.
\<close>

lemma fread_n_complete:
  assumes "length buf = stride" and "n * stride \<le> length fp"
  shows "fread_n stride n (buf, fp) =
     (if n = 0 then buf else take stride (drop ((n - 1) * stride) fp), drop (n * stride) fp)"
  using assms(2)
proof (induction n)
  case 0
  then show ?case by simp
next
  case (Suc n)
  then have le: "n * stride \<le> length fp" and room: "stride \<le> length fp - n * stride"
    by simp_all
  have l: "length (if n = 0 then buf else take stride (drop ((n - 1) * stride) fp)) = stride"
  proof (cases n)
    case 0
    then show ?thesis by (simp add: assms(1))
  next
    case (Suc m)
    with Suc.prems have "stride \<le> length fp - m * stride"
      by simp
    with Suc show ?thesis
      by simp
  qed
  show ?case
    using Suc.IH [OF le] room l
    by (simp add: fread_def Let_def min_def add.commute)
qed

lemma row_read_complete:
  assumes "length buf = stride" and "Suc k * stride \<le> length fp"
  shows "row_read stride buf fp k = take stride (drop (k * stride) fp)"
  using fread_n_complete [OF assms] by (simp add: row_read_def)

text \<open>
  Claim C3. For every bitmap that \<^verbatim>\<open>main\<close> accepts and reads, the pixel array has
  \<open>src_h\<close> rows of \<open>src_w\<close> pixels. With a negative height field the rows are in file
  order: row \<open>k\<close> of the array holds the pixels of the row that the \<open>k\<close>-th call of
  \<^verbatim>\<open>fread\<close> delivers, so row 0 is the first row read. With a positive height field the
  rows are reversed: row \<open>k\<close> holds the row read by call \<open>src_h - 1 - k\<close>, so row 0 is
  the last row read. In both cases the three bytes of a pixel, stored blue, green, red,
  become its fields red, green, blue. A row that the file holds whole is the block of
  \<open>stride\<close> bytes at its place in the pixel data.
\<close>
theorem main_read_pixels_rows:
  assumes "main_read_pixels e fh ih file = Inr (src_w, src_h, pixels)"
  shows
    "(let stride = nat (row_stride_of src_w);
          fp = drop (unat (bfOffBits fh)) file;
          rows = row_read stride (fresh_bytes e stride) fp
      in length pixels = nat src_h * nat src_w
         \<and> (sint (biHeight ih) < 0 \<longrightarrow>
              buffer_row (nat src_w) pixels 0 = bgr_pixels (nat src_w) (rows 0)
              \<and> (\<forall>k<nat src_h. buffer_row (nat src_w) pixels k = bgr_pixels (nat src_w) (rows k)))
         \<and> (0 < sint (biHeight ih) \<longrightarrow>
              buffer_row (nat src_w) pixels 0 = bgr_pixels (nat src_w) (rows (nat src_h - 1))
              \<and> (\<forall>k<nat src_h. buffer_row (nat src_w) pixels k =
                    bgr_pixels (nat src_w) (rows (nat src_h - 1 - k))))
         \<and> (\<forall>k. Suc k * stride \<le> length fp \<longrightarrow> rows k = take stride (drop (k * stride) fp)))"
proof -
  define stride where "stride = nat (row_stride_of src_w)"
  define fp where "fp = drop (unat (bfOffBits fh)) file"
  define buf0 where "buf0 = fresh_bytes e stride"
  define w where "w = nat src_w"
  define h where "h = nat src_h"
  define td where "td \<longleftrightarrow> sint (biHeight ih) < 0"
  define px0 where "px0 = fresh_pixels e (nat (src_w * src_h))"
  from assms have sw: "src_w = \<bar>sint (biWidth ih)\<bar>" and sh: "src_h = \<bar>sint (biHeight ih)\<bar>"
    by (auto simp: main_read_pixels_def Let_def split: if_splits prod.splits)
  have nn: "0 \<le> src_w" "0 \<le> src_h" by (simp_all add: sw sh)
  have len0: "length px0 = h * w"
    using nn by (simp add: px0_def fresh_pixels_def h_def w_def nat_mult_distrib mult.commute)
  from assms obtain b' f' where
    run: "read_rows w h td stride (buf0, fp, px0) = (b', f', pixels)"
    unfolding main_read_pixels_def Let_def sw [symmetric] sh [symmetric]
    by (auto simp: w_def h_def td_def stride_def fp_def buf0_def px0_def split: if_splits prod.splits)
  from read_rows_prefix [OF len0 order_refl, of td stride buf0 fp] run
  have len: "length pixels = h * w"
    and rows: "\<And>row. row < h \<Longrightarrow>
      buffer_row w pixels (dst_row_of td h row) = bgr_pixels w (row_read stride buf0 fp row)"
    by (auto simp: read_rows_def)
  have down: "buffer_row w pixels k = bgr_pixels w (row_read stride buf0 fp k)"
    if "td" "k < h" for k
    using rows [OF that(2)] that(1) by (simp add: dst_row_of_def)
  have up: "buffer_row w pixels k = bgr_pixels w (row_read stride buf0 fp (h - 1 - k))"
    if "\<not> td" "k < h" for k
  proof -
    from that(2) have "h - 1 - k < h" by simp
    from rows [OF this] that show ?thesis by (simp add: dst_row_of_def)
  qed
  have pos: "0 < h" if "sint (biHeight ih) \<noteq> 0"
    using that by (simp add: h_def sh)
  have whole: "row_read stride buf0 fp k = take stride (drop (k * stride) fp)"
    if "Suc k * stride \<le> length fp" for k
    using that by (intro row_read_complete) (simp_all add: buf0_def fresh_bytes_def)
  show ?thesis
    unfolding Let_def stride_def [symmetric] fp_def [symmetric] buf0_def [symmetric]
      w_def [symmetric] h_def [symmetric]
    using len down up pos whole by (auto simp: td_def)
qed


lemma ex_up:
  "main_read_pixels ex_env ex_fh (ex_ih 2) ex_file =
     Inr (2, 2, [\<lparr>r = 13, g = 12, b = 11\<rparr>, \<lparr>r = 16, g = 15, b = 14\<rparr>,
                 \<lparr>r = 3, g = 2, b = 1\<rparr>, \<lparr>r = 6, g = 5, b = 4\<rparr>])"
  by code_simp

lemma ex_down:
  "main_read_pixels ex_env ex_fh (ex_ih (- 2)) ex_file =
     Inr (2, 2, [\<lparr>r = 3, g = 2, b = 1\<rparr>, \<lparr>r = 6, g = 5, b = 4\<rparr>,
                 \<lparr>r = 13, g = 12, b = 11\<rparr>, \<lparr>r = 16, g = 15, b = 14\<rparr>])"
  by code_simp

lemma ex_rows:
  "row_read 8 (fresh_bytes ex_env 8) (drop 2 ex_file) 0 = [1, 2, 3, 4, 5, 6, 0, 0]"
  "row_read 8 (fresh_bytes ex_env 8) (drop 2 ex_file) (Suc 0) = [11, 12, 13, 14, 15, 16, 0, 0]"
  by code_simp+

text \<open>
  The theorem at a bitmap of two rows of two pixels, bottom-up and top-down.
\<close>
theorem main_read_pixels_rows_witness:
  "main_read_pixels ex_env ex_fh (ex_ih 2) ex_file =
     Inr (2, 2, [\<lparr>r = 13, g = 12, b = 11\<rparr>, \<lparr>r = 16, g = 15, b = 14\<rparr>,
                 \<lparr>r = 3, g = 2, b = 1\<rparr>, \<lparr>r = 6, g = 5, b = 4\<rparr>])
   \<and> buffer_row 2 [\<lparr>r = 13, g = 12, b = 11\<rparr>, \<lparr>r = 16, g = 15, b = 14\<rparr>,
                 \<lparr>r = 3, g = 2, b = 1\<rparr>, \<lparr>r = 6, g = 5, b = 4\<rparr>] 0
       = bgr_pixels 2 [11, 12, 13, 14, 15, 16, 0, 0]
   \<and> main_read_pixels ex_env ex_fh (ex_ih (- 2)) ex_file =
     Inr (2, 2, [\<lparr>r = 3, g = 2, b = 1\<rparr>, \<lparr>r = 6, g = 5, b = 4\<rparr>,
                 \<lparr>r = 13, g = 12, b = 11\<rparr>, \<lparr>r = 16, g = 15, b = 14\<rparr>])
   \<and> buffer_row 2 [\<lparr>r = 3, g = 2, b = 1\<rparr>, \<lparr>r = 6, g = 5, b = 4\<rparr>,
                 \<lparr>r = 13, g = 12, b = 11\<rparr>, \<lparr>r = 16, g = 15, b = 14\<rparr>] 0
       = bgr_pixels 2 [1, 2, 3, 4, 5, 6, 0, 0]"
proof -
  have s: "nat (row_stride_of 2) = 8"
    by (simp add: row_stride_of_def)
  have o: "unat (bfOffBits ex_fh) = 2"
    by (simp add: ex_fh_def)
  have h: "sint (biHeight (ex_ih 2)) = 2" "sint (biHeight (ex_ih (- 2))) = - 2"
    by (simp_all add: ex_ih_def)
  show ?thesis
    using main_read_pixels_rows [OF ex_up] main_read_pixels_rows [OF ex_down] ex_up ex_down
    by (simp add: Let_def s o h ex_rows)
qed

section \<open>Resampler: the claims\<close>

lemma bit_length_bounds:
  "0 < n \<Longrightarrow> 2 ^ (bit_length n - 1) \<le> n \<and> n < 2 ^ bit_length n"
proof (induction n rule: bit_length.induct)
  case (1 n)
  show ?case
  proof (cases "n div 2 \<le> 0")
    case True
    with 1 have "n = 1" by auto
    then show ?thesis
      by (subst (1 2) bit_length.simps, subst (1 2) bit_length.simps) simp
  next
    case False
    with 1 have ih: "2 ^ (bit_length (n div 2) - 1) \<le> n div 2" "n div 2 < 2 ^ bit_length (n div 2)"
      by auto
    have pos: "0 < bit_length (n div 2)"
      using False by (subst bit_length.simps) simp
    have s: "bit_length n = Suc (bit_length (n div 2))"
      using 1 by (subst bit_length.simps) simp
    have "(2::int) ^ (bit_length n - 1) = 2 * 2 ^ (bit_length (n div 2) - 1)"
      using pos by (simp add: s flip: power_Suc)
    also have "\<dots> \<le> 2 * (n div 2)" using ih(1) by simp
    also have "\<dots> \<le> n" by simp
    finally have lo: "2 ^ (bit_length n - 1) \<le> n" .
    have "n < 2 * (n div 2) + 2" by arith
    also have "\<dots> \<le> 2 * 2 ^ bit_length (n div 2)" using ih(2) by simp
    finally have "n < 2 ^ bit_length n" by (simp add: s)
    with lo show ?thesis ..
  qed
qed

lemma bit_length_pos: "0 < n \<Longrightarrow> 0 < bit_length n"
  by (subst bit_length.simps) simp

lemma pow2_pos: "0 < pow2 k"
  by (simp add: pow2_def)

lemma pow2_nat: "pow2 (int n) = 2 ^ n"
  by (simp add: pow2_def)

lemma pow2_neg_nat: "pow2 (- int n) = 1 / 2 ^ n"
  by (auto simp: pow2_def)

lemma pow2_powi: "pow2 k = 2 powi k"
  by (simp add: pow2_def power_int_def field_simps)

lemma pow2_add: "pow2 (i + j) = pow2 i * pow2 j"
  by (simp add: pow2_powi power_int_add)

lemma pow2_mono: "i \<le> j \<Longrightarrow> pow2 i \<le> pow2 j"
  by (simp add: pow2_powi power_int_increasing)

lemma pow2_less_cancel: "pow2 i < pow2 j \<Longrightarrow> i < j"
  using pow2_mono [of j i] by (cases "i < j") auto

lemma of_int_le_pow2: "n \<le> 2 ^ k \<Longrightarrow> (of_int n :: rat) \<le> 2 ^ k"
  by (metis of_int_le_iff of_int_numeral of_int_power)

lemma pow2_le_of_int: "2 ^ k \<le> n \<Longrightarrow> (2 :: rat) ^ k \<le> of_int n"
  by (metis of_int_le_iff of_int_numeral of_int_power)

lemma ilog2_bounds:
  assumes "0 < x"
  shows "pow2 (ilog2 x) \<le> x" and "x < pow2 (ilog2 x + 1)"
proof -
  have "pow2 (ilog2 x) \<le> x \<and> x < pow2 (ilog2 x + 1)"
  proof (cases "1 \<le> x")
    case True
    define n where "n = \<lfloor>x\<rfloor>"
    have "1 \<le> \<lfloor>x\<rfloor>" using True by (simp add: le_floor_iff)
    then have n: "0 < n" by (simp add: n_def)
    from bit_length_bounds [OF n]
    have bl: "2 ^ (bit_length n - 1) \<le> n" "n < 2 ^ bit_length n" by auto
    have e: "ilog2 x = int (bit_length n - 1)" "ilog2 x + 1 = int (bit_length n)"
      using True bit_length_pos [OF n] by (simp_all add: ilog2_def n_def)
    have "(2::rat) ^ (bit_length n - 1) \<le> of_int n"
      using bl(1) by (rule pow2_le_of_int)
    also have "\<dots> \<le> x" by (simp add: n_def)
    finally have lo: "pow2 (ilog2 x) \<le> x"
      by (simp only: e(1) pow2_nat)
    have "n + 1 \<le> 2 ^ bit_length n" using bl(2) by simp
    then have up: "(of_int (n + 1) :: rat) \<le> 2 ^ bit_length n"
      by (rule of_int_le_pow2)
    have "x < of_int (n + 1)"
      by (simp add: n_def) linarith
    from this up have "x < 2 ^ bit_length n"
      by (rule less_le_trans)
    then have "x < pow2 (ilog2 x + 1)"
      by (simp only: e(2) pow2_nat)
    with lo show ?thesis ..
  next
    case False
    define y where "y = 1 / x"
    have y: "1 < y" "x = 1 / y" "0 < y"
      using False assms by (simp_all add: y_def)
    define m where "m = \<lceil>y\<rceil> - 1"
    have "2 \<le> \<lceil>y\<rceil>" using y(1) by (simp add: le_ceiling_iff)
    then have m: "0 < m" by (simp add: m_def)
    have my: "of_int m < y" "y \<le> of_int (m + 1)"
      by (simp_all add: m_def) linarith+
    from bit_length_bounds [OF m]
    have bl: "2 ^ (bit_length m - 1) \<le> m" "m < 2 ^ bit_length m" by auto
    have e: "ilog2 x = - int (bit_length m)" "ilog2 x + 1 = - int (bit_length m - 1)"
      using False bit_length_pos [OF m] by (simp_all add: ilog2_def m_def y_def)
    have "m + 1 \<le> 2 ^ bit_length m" using bl(2) by simp
    then have up: "(of_int (m + 1) :: rat) \<le> 2 ^ bit_length m"
      by (rule of_int_le_pow2)
    from my(2) up have "y \<le> 2 ^ bit_length m"
      by (rule order_trans)
    then have "1 / 2 ^ bit_length m \<le> 1 / y"
      using y(3) by (simp add: frac_le)
    then have "1 / 2 ^ bit_length m \<le> x"
      by (simp only: y(2))
    then have lo: "pow2 (ilog2 x) \<le> x"
      by (simp only: e(1) pow2_neg_nat)
    have "(2::rat) ^ (bit_length m - 1) \<le> of_int m"
      using bl(1) by (rule pow2_le_of_int)
    from this my(1) have "2 ^ (bit_length m - 1) < y" by (rule le_less_trans)
    then have "1 / y < 1 / 2 ^ (bit_length m - 1)"
      by (simp add: frac_less2)
    then have "x < 1 / 2 ^ (bit_length m - 1)"
      by (simp only: y(2))
    then have "x < pow2 (ilog2 x + 1)"
      by (simp only: e(2) pow2_neg_nat)
    with lo show ?thesis ..
  qed
  then show "pow2 (ilog2 x) \<le> x" and "x < pow2 (ilog2 x + 1)" by auto
qed

lemma round_half_even_error: "\<bar>of_int (round_half_even q) - q\<bar> \<le> 1 / 2"
proof -
  have "of_int \<lfloor>q\<rfloor> \<le> q" "q < of_int \<lfloor>q\<rfloor> + 1"
    by linarith+
  then show ?thesis
    by (auto simp: round_half_even_def Let_def)
qed

lemma round_half_even_int: "round_half_even (of_int k) = k"
  by (simp add: round_half_even_def)

lemma pow2_values: "pow2 (- 24) = eps" "pow2 (- 1) = 1 / 2" "pow2 0 = 1"
  by (simp_all add: pow2_def eps_def)

lemma f32_round_normal:
  assumes "pow2 (- 126) \<le> x"
  shows "\<bar>f32_round x - x\<bar> \<le> eps * x"
proof -
  have x: "0 < x" using assms pow2_pos [of "- 126"] by simp
  define e where "e = ilog2 x"
  define u where "u = pow2 (e - 23)"
  define q where "q = x / u"
  have u: "0 < u" by (simp add: u_def pow2_pos)
  have "pow2 (- 126) < pow2 (e + 1)"
    using assms ilog2_bounds(2) [OF x] by (simp add: e_def)
  then have "- 126 < e + 1" by (rule pow2_less_cancel)
  then have m: "max (ilog2 x) (- 126) = e" by (simp add: e_def)
  have fr: "f32_round x = of_int (round_half_even q) * u"
    using x by (simp add: f32_round_def Let_def m u_def q_def)
  have xq: "x = q * u" using u by (simp add: q_def)
  have "f32_round x - x = (of_int (round_half_even q) - q) * u"
    by (simp add: fr algebra_simps flip: xq)
  then have "\<bar>f32_round x - x\<bar> = \<bar>of_int (round_half_even q) - q\<bar> * u"
    using u by (simp add: abs_mult)
  also have "\<dots> \<le> (1 / 2) * u"
    using round_half_even_error [of q] u by (intro mult_right_mono) simp_all
  also have "\<dots> = eps * pow2 e"
  proof -
    have "e - 23 = (- 24) + (1 + e)" by simp
    have "u = pow2 (- 24) * (pow2 1 * pow2 e)"
      unfolding u_def by (simp flip: pow2_add)
    also have "pow2 1 = 2" by (simp add: pow2_def)
    finally show ?thesis by (simp add: pow2_values)
  qed
  also have "\<dots> \<le> eps * x"
    using ilog2_bounds(1) [OF x] by (intro mult_left_mono) (simp_all add: e_def eps_def)
  finally show ?thesis .
qed

lemma f32_round_upper: "pow2 (- 126) \<le> x \<Longrightarrow> f32_round x \<le> (1 + eps) * x"
  using f32_round_normal [of x] by (simp add: algebra_simps abs_le_iff)

lemma f32_round_lower: "pow2 (- 126) \<le> x \<Longrightarrow> (1 - eps) * x \<le> f32_round x"
  using f32_round_normal [of x] by (simp add: algebra_simps abs_le_iff)

lemma f32_round_exact:
  assumes "0 < x" and "x / pow2 (max (ilog2 x) (- 126) - 23) = of_int k"
  shows "f32_round x = x"
proof -
  have "0 < pow2 (max (ilog2 x) (- 126) - 23)" by (rule pow2_pos)
  then have "x = of_int k * pow2 (max (ilog2 x) (- 126) - 23)"
    using assms(2) by (simp add: field_simps)
  then show ?thesis
    using assms by (simp add: f32_round_def Let_def round_half_even_int)
qed

lemma f32_of_int_exact:
  assumes "0 \<le> n" and "n \<le> 2 ^ 24"
  shows "f32_of_int n = of_int n"
proof (cases "n = 0")
  case True
  then show ?thesis by (simp add: f32_of_int_def f32_round_def)
next
  case False
  define x :: rat where "x = of_int n"
  have x: "0 < x" "1 \<le> x" "x \<le> 2 ^ 24"
    using False assms by (simp_all add: x_def)
  define e where "e = ilog2 x"
  have "pow2 0 \<le> x" using x by (simp add: pow2_def)
  also have "x < pow2 (e + 1)" using ilog2_bounds(2) [OF x(1)] by (simp add: e_def)
  finally have "0 < e + 1" by (rule pow2_less_cancel)
  then have e0: "0 \<le> e" by simp
  have "pow2 e \<le> x" using ilog2_bounds(1) [OF x(1)] by (simp add: e_def)
  also have "x < pow2 25" using x(3) by (simp add: pow2_def)
  finally have "e < 25" by (rule pow2_less_cancel)
  then have e24: "e \<le> 24" by simp
  have m: "max (ilog2 x) (- 126) = e" using e0 by (simp add: e_def)
  have "\<exists>k. x / pow2 (e - 23) = of_int k"
  proof (cases "e \<le> 23")
    case True
    then have "pow2 (e - 23) = 1 / 2 ^ nat (23 - e)"
      by (cases "e = 23") (simp_all add: pow2_def)
    then have "x / pow2 (e - 23) = of_int (n * 2 ^ nat (23 - e))"
      by (simp add: x_def)
    then show ?thesis ..
  next
    case False
    with e24 have e: "e = 24" by simp
    have "pow2 24 \<le> x" using ilog2_bounds(1) [OF x(1)] by (simp add: e_def e [symmetric])
    with x(3) have "x = 2 ^ 24" by (simp add: pow2_def)
    then have "x / pow2 (e - 23) = of_int (2 ^ 23)"
      by (simp add: e pow2_def)
    then show ?thesis ..
  qed
  then obtain k where "x / pow2 (max (ilog2 x) (- 126) - 23) = of_int k"
    unfolding m ..
  from f32_round_exact [OF x(1) this] show ?thesis
    by (simp add: f32_of_int_def x_def)
qed

lemma tiny: "pow2 (- 126) \<le> 1 / 2 ^ 24"
proof -
  have "pow2 (- 126) \<le> pow2 (- 24)" by (rule pow2_mono) simp
  then show ?thesis by (simp add: pow2_values eps_def)
qed

lemma eps_cube: "(1 + eps) * ((1 + eps) * (1 + eps)) \<le> 1 + 1 / 2 ^ 22"
  by (simp add: eps_def)

lemma source_coordinate_below:
  assumes W: "0 < W" and D: "0 < D" "D \<le> 4194304" and d: "0 \<le> d" "d < D"
  shows "0 \<le> f32_mul (f32_of_int d) (scale_of W D)"
    and "f32_mul (f32_of_int d) (scale_of W D) < of_int W"
proof -
  define w :: rat where "w = of_int W"
  define dd :: rat where "dd = of_int D"
  define x :: rat where "x = of_int d"
  have w: "1 \<le> w" using W by (simp add: w_def)
  have dd: "1 \<le> dd" "dd \<le> 2 ^ 22" using D by (simp_all add: dd_def)
  have x: "0 \<le> x" "x \<le> dd - 1" using d by (simp_all add: x_def dd_def)
  define fw where "fw = f32_round w"
  have "(1::rat) / 2 ^ 24 \<le> w"
    using w by simp
  with tiny have "pow2 (- 126) \<le> w"
    by (rule order_trans)
  then have fw: "(1 - eps) * w \<le> fw" "fw \<le> (1 + eps) * w"
    unfolding fw_def by (rule f32_round_lower, rule f32_round_upper)
  have fD: "f32_of_int D = dd"
    using D by (simp add: f32_of_int_exact dd_def)
  have fd: "f32_of_int d = x"
    using d D by (simp add: f32_of_int_exact x_def)
  define s where "s = f32_round (fw / dd)"
  have sc: "scale_of W D = s"
    unfolding scale_of_def f32_div_def fD by (simp add: s_def fw_def f32_of_int_def w_def)
  have e1: "0 < 1 - eps" "0 < 1 + eps" by (simp_all add: eps_def)
  have fwpos: "1 / 2 \<le> fw"
  proof -
    have "1 / 2 \<le> (1 - eps) * 1" by (simp add: eps_def)
    also have "\<dots> \<le> (1 - eps) * w" using w e1 by (intro mult_left_mono) simp_all
    also have "\<dots> \<le> fw" by (rule fw(1))
    finally show ?thesis .
  qed
  have q_lo: "1 / 2 ^ 23 \<le> fw / dd"
  proof -
    have "(1::rat) / 2 ^ 23 = (1 / 2) / 2 ^ 22" by simp
    also have "\<dots> \<le> fw / dd"
      using fwpos dd by (intro frac_le) simp_all
    finally show ?thesis .
  qed
  have "pow2 (- 126) \<le> pow2 (- 23)" by (rule pow2_mono) simp
  also have "pow2 (- 23) = 1 / 2 ^ 23" by (simp add: pow2_def)
  finally have "pow2 (- 126) \<le> 1 / 2 ^ 23" .
  from this q_lo have "pow2 (- 126) \<le> fw / dd" by (rule order_trans)
  then have s: "(1 - eps) * (fw / dd) \<le> s" "s \<le> (1 + eps) * (fw / dd)"
    unfolding s_def by (rule f32_round_lower, rule f32_round_upper)
  have s_lo: "1 / 2 ^ 24 \<le> s"
  proof -
    have "1 / 2 ^ 24 \<le> (1 - eps) * (1 / 2 ^ 23)" by (simp add: eps_def)
    also have "\<dots> \<le> (1 - eps) * (fw / dd)"
      using q_lo e1 by (intro mult_left_mono) simp_all
    also have "\<dots> \<le> s" by (rule s(1))
    finally show ?thesis .
  qed
  have s_up: "s \<le> (1 + eps) * ((1 + eps) * w) / dd"
  proof -
    have "fw / dd \<le> ((1 + eps) * w) / dd"
      using fw(2) dd by (intro divide_right_mono) simp_all
    then have "(1 + eps) * (fw / dd) \<le> (1 + eps) * (((1 + eps) * w) / dd)"
      using e1 by (intro mult_left_mono) simp_all
    with s(2) show ?thesis by simp
  qed
  define xf where "xf = f32_round (x * s)"
  have xf: "f32_mul (f32_of_int d) (scale_of W D) = xf"
    unfolding f32_mul_def fd sc by (simp add: xf_def)
  have "0 \<le> xf \<and> xf < w"
  proof (cases "x = 0")
    case True
    then have "xf = 0" by (simp add: xf_def f32_round_def)
    with w show ?thesis by simp
  next
    case False
    with d have x1: "1 \<le> x" by (simp add: x_def)
    have spos: "0 < s" using s_lo by (rule less_le_trans [rotated]) simp
    have "1 / 2 ^ 24 \<le> 1 * s" using s_lo by simp
    also have "\<dots> \<le> x * s" using x1 spos by (intro mult_right_mono) simp_all
    finally have p_lo: "1 / 2 ^ 24 \<le> x * s" .
    from tiny this have n: "pow2 (- 126) \<le> x * s" by (rule order_trans)
    have lo: "0 \<le> xf"
    proof -
      have "0 \<le> (1 - eps) * (x * s)" using e1 x(1) spos by simp
      also have "\<dots> \<le> xf" unfolding xf_def using n by (rule f32_round_lower)
      finally show ?thesis .
    qed
    have "xf \<le> (1 + eps) * (x * s)"
      unfolding xf_def using n by (rule f32_round_upper)
    also have "\<dots> \<le> (1 + eps) * ((dd - 1) * ((1 + eps) * ((1 + eps) * w) / dd))"
      using x s_up spos e1 by (intro mult_left_mono mult_mono) simp_all
    also have "\<dots> = ((1 + eps) * ((1 + eps) * (1 + eps))) * ((dd - 1) / dd) * w"
      by (simp add: field_simps)
    also have "\<dots> \<le> (1 + 1 / 2 ^ 22) * ((dd - 1) / dd) * w"
      using eps_cube dd w by (intro mult_right_mono) simp_all
    also have "\<dots> < 1 * w"
    proof -
      have "(1 + 1 / 2 ^ 22) * (dd - 1) < dd"
        using dd by (simp add: field_simps)
      then have "(1 + 1 / 2 ^ 22) * ((dd - 1) / dd) < 1"
        using dd by (simp add: field_simps)
      then show ?thesis
        using w by (intro mult_strict_right_mono) simp_all
    qed
    finally have "xf < w" by simp
    with lo show ?thesis ..
  qed
  then show "0 \<le> f32_mul (f32_of_int d) (scale_of W D)"
    and "f32_mul (f32_of_int d) (scale_of W D) < of_int W"
    by (simp_all add: xf w_def)
qed

lemma axis_coords_in_bounds:
  assumes "0 < W" "W \<le> INT_MAX" "0 < D" "D \<le> 4194304" "0 \<le> d" "d < D"
  shows "\<exists>xf i0. axis_coords (scale_of W D) d W = Inr (xf, i0, min (i0 + 1) (W - 1))
    \<and> 0 \<le> i0 \<and> i0 < W"
proof -
  define xf where "xf = f32_mul (f32_of_int d) (scale_of W D)"
  have b: "0 \<le> xf" "xf < of_int W"
    unfolding xf_def using assms by (simp_all add: source_coordinate_below)
  define i0 where "i0 = \<lfloor>xf\<rfloor>"
  have t: "truncate xf = i0" using b(1) by (simp add: truncate_def i0_def)
  have i0: "0 \<le> i0" "i0 < W"
    using b by (simp_all add: i0_def floor_less_iff)
  then have r: "in_int i0" "in_int (i0 + 1)"
    using assms(2) by (simp_all add: in_int_def INT_MAX_def INT_MIN_def)
  have "axis_coords (scale_of W D) d W = Inr (xf, i0, (if i0 + 1 < W then i0 + 1 else i0))"
    using r by (simp add: axis_coords_def Let_def f32_to_int_def t flip: xf_def)
  moreover have "(if i0 + 1 < W then i0 + 1 else i0) = min (i0 + 1) (W - 1)"
    using i0 by (simp add: min_def)
  ultimately show ?thesis
    using i0 by auto
qed

lemma src_at_in_bounds:
  assumes "0 \<le> x" "x < W" "0 \<le> y" "y < H" "int (length src) = W * H" "W * H \<le> INT_MAX"
  shows "src_at src W x y = Inr (src ! nat (y * W + x))"
proof -
  have W: "0 < W" using assms(1,2) by simp
  have "y * W \<le> (H - 1) * W"
    using assms(4) W by (intro mult_right_mono) simp_all
  then have up: "y * W + x < W * H"
    using assms(2) by (simp add: algebra_simps)
  have lo: "0 \<le> y * W" "0 \<le> y * W + x"
    using assms(1,3) W by simp_all
  have "y * W \<le> y * W + x" using assms(1) by simp
  with up lo assms(6) have "in_int (y * W)" "in_int (y * W + x)"
    by (simp_all add: in_int_def INT_MIN_def INT_MAX_def)
  with up lo show ?thesis
    by (simp add: src_at_def assms(5))
qed

text \<open>
  The destination of the program is 320 by 240. Up to a destination of \<open>2 ^ 22 = 4194304\<close>
  pixels a side, and for a source whose \<open>src_w * src_h\<close> pixels are counted in an
  \<^verbatim>\<open>int\<close>, the rounding of the single-precision products cannot carry
  \<^verbatim>\<open>src_xf\<close> to \<^verbatim>\<open>src_w\<close>: every destination pixel has
  \<open>x1 = min (x0 + 1) (src_w - 1)\<close> and \<open>y1 = min (y0 + 1) (src_h - 1)\<close>, its four
  sampled coordinates lie within the source, and the four reads are inside the array.
\<close>

lemma sample_coords_in_bounds:
  assumes "0 < src_w" "src_w \<le> INT_MAX" "0 < src_h" "src_h \<le> INT_MAX"
    and "0 < dst_w" "dst_w \<le> 4194304" "0 < dst_h" "dst_h \<le> 4194304"
    and "0 \<le> dst_x" "dst_x < dst_w" "0 \<le> dst_y" "dst_y < dst_h"
    and "src_w * src_h \<le> INT_MAX" "int (length src) = src_w * src_h"
  shows "\<exists>x0 y0 x1 y1.
      sample_coords src_w src_h dst_w dst_h dst_x dst_y = Inr (x0, y0, x1, y1)
      \<and> x1 = min (x0 + 1) (src_w - 1) \<and> y1 = min (y0 + 1) (src_h - 1)
      \<and> 0 \<le> x0 \<and> x0 < src_w \<and> 0 \<le> x1 \<and> x1 < src_w
      \<and> 0 \<le> y0 \<and> y0 < src_h \<and> 0 \<le> y1 \<and> y1 < src_h
      \<and> src_at src src_w x0 y0 = Inr (src ! nat (y0 * src_w + x0))
      \<and> src_at src src_w x1 y0 = Inr (src ! nat (y0 * src_w + x1))
      \<and> src_at src src_w x0 y1 = Inr (src ! nat (y1 * src_w + x0))
      \<and> src_at src src_w x1 y1 = Inr (src ! nat (y1 * src_w + x1))"
proof -
  from axis_coords_in_bounds [OF assms(1,2,5,6,9,10)]
  obtain xf x0 where
    ax: "axis_coords (scale_of src_w dst_w) dst_x src_w = Inr (xf, x0, min (x0 + 1) (src_w - 1))"
    and x0: "0 \<le> x0" "x0 < src_w"
    by blast
  from axis_coords_in_bounds [OF assms(3,4,7,8,11,12)]
  obtain yf y0 where
    ay: "axis_coords (scale_of src_h dst_h) dst_y src_h = Inr (yf, y0, min (y0 + 1) (src_h - 1))"
    and y0: "0 \<le> y0" "y0 < src_h"
    by blast
  define x1 where "x1 = min (x0 + 1) (src_w - 1)"
  define y1 where "y1 = min (y0 + 1) (src_h - 1)"
  have x1: "0 \<le> x1" "x1 < src_w" using x0 by (simp_all add: x1_def)
  have y1: "0 \<le> y1" "y1 < src_h" using y0 by (simp_all add: y1_def)
  have sc: "sample_coords src_w src_h dst_w dst_h dst_x dst_y = Inr (x0, y0, x1, y1)"
    by (simp add: sample_coords_def ax ay x1_def y1_def)
  have reads: "src_at src src_w x0 y0 = Inr (src ! nat (y0 * src_w + x0))
            \<and> src_at src src_w x1 y0 = Inr (src ! nat (y0 * src_w + x1))
            \<and> src_at src src_w x0 y1 = Inr (src ! nat (y1 * src_w + x0))
            \<and> src_at src src_w x1 y1 = Inr (src ! nat (y1 * src_w + x1))"
    using assms(13,14) x0 x1 y0 y1 by (simp add: src_at_in_bounds)
  show ?thesis
    using sc x0 x1 y0 y1 reads x1_def y1_def by blast
qed

text \<open>The last pixel of a resize from 640 by 480 to 320 by 240.\<close>

lemma sample_coords_halving:
  "sample_coords 640 480 320 240 319 239 = Inr (638, 478, 639, 479)"
  by code_simp











text \<open>
  Claim C4. When the source is already 320 by 240, \<^verbatim>\<open>main\<close> passes the source
  pixels on as they are and cannot fail there, whatever \<^verbatim>\<open>malloc\<close> would do:
  \<^verbatim>\<open>resize_bilinear\<close> is not called.
\<close>
theorem main_resize_same_size:
  "main_resize e src_pixels OUT_WIDTH OUT_HEIGHT = Inr src_pixels
   \<and> OUT_WIDTH = 320 \<and> OUT_HEIGHT = 240"
  by (simp add: main_resize_def OUT_WIDTH_def OUT_HEIGHT_def)

end
